theory Spec2Isabelle
  imports Main "HOL-Library.Word" "HOL-Library.Signed_Division"
begin

unbundle bit_operations_syntax

section \<open>Machine types and constants\<close>

text \<open>
  \<^verbatim>\<open>bits_t\<close> is the 128-bit unsigned register type (\<^verbatim>\<open>unsigned __int128\<close>).
  C's \<^verbatim>\<open>int\<close> and \<^verbatim>\<open>unsigned int\<close> are 32-bit words; a signed one is read
  with \<^term>\<open>sint\<close> and compared with \<open><s\<close>, arithmetic wraps around.
\<close>

type_synonym bits_t = "128 word"
type_synonym int32 = "32 word"
type_synonym uint32 = "32 word"

definition ZERO_THRESHOLD :: int32 where
  "ZERO_THRESHOLD = push_bit 16 128"

definition REF_PEAKS_AVG :: int32 where
  "REF_PEAKS_AVG = 48"

definition VALID_BITS :: uint32 where
  "VALID_BITS = 24"

definition MONITOR_DECAY_EVERY :: int where
  "MONITOR_DECAY_EVERY = 512"

definition SWITCH_PHASE :: int32 where
  "SWITCH_PHASE = 0x1"

definition SWITCH_PRIMARY :: int32 where
  "SWITCH_PRIMARY = 0x2"

definition SWITCH_POLARITY :: int32 where
  "SWITCH_POLARITY = 0x4"

definition OFFSET_MODULATION :: int32 where
  "OFFSET_MODULATION = 0x8"

definition UINT128 :: "64 word \<Rightarrow> 64 word \<Rightarrow> bits_t" where
  "UINT128 hi lo = push_bit 64 (ucast hi) OR ucast lo"

text \<open>C's division on \<^verbatim>\<open>int\<close> truncates towards zero.\<close>

definition sdiv32 :: "int32 \<Rightarrow> int32 \<Rightarrow> int32" where
  "sdiv32 a b = word_of_int (sint a sdiv sint b)"

definition sdiv64 :: "64 word \<Rightarrow> 64 word \<Rightarrow> 64 word" where
  "sdiv64 a b = word_of_int (sint a sdiv sint b)"

text \<open>\<^verbatim>\<open>abs\<close> on \<^verbatim>\<open>int\<close>; the most negative value is returned unchanged.\<close>

definition abs32 :: "int32 \<Rightarrow> int32" where
  "abs32 a = (if a <s 0 then - a else a)"

section \<open>Timecode definitions\<close>

text \<open>
  The immutable part of \<^verbatim>\<open>struct timecode_def\<close>. The two mutable members
  (\<^verbatim>\<open>lookup\<close> and \<^verbatim>\<open>lut\<close>) are kept in a separate per-entry state below.
\<close>

record timecode_def =
  name :: string
  desc :: string
  resolution :: int32
  flags :: int32
  bits :: nat
  seed :: bits_t
  taps :: bits_t
  length_tc :: uint32
  safe :: uint32

definition timecodes :: "timecode_def list" where
  "timecodes = [
    \<lparr> name = ''serato_2a'', desc = ''Serato 2nd Ed., side A'',
      resolution = 1000, flags = 0, bits = 20,
      seed = 0x59017, taps = 0x361e4, length_tc = 712000, safe = 707000 \<rparr>,
    \<lparr> name = ''serato_2b'', desc = ''Serato 2nd Ed., side B'',
      resolution = 1000, flags = 0, bits = 20,
      seed = 0x8f3c6, taps = 0x4f0d8, length_tc = 922000, safe = 917000 \<rparr>,
    \<lparr> name = ''serato_cd'', desc = ''Serato CD'',
      resolution = 1000, flags = 0, bits = 20,
      seed = 0xd8b40, taps = 0x34d54, length_tc = 950000, safe = 940000 \<rparr>,
    \<lparr> name = ''traktor_a'', desc = ''Traktor Scratch, side A'',
      resolution = 2000, flags = SWITCH_PRIMARY OR SWITCH_POLARITY OR SWITCH_PHASE, bits = 23,
      seed = 0x134503, taps = 0x041040, length_tc = 1500000, safe = 1480000 \<rparr>,
    \<lparr> name = ''traktor_b'', desc = ''Traktor Scratch, side B'',
      resolution = 2000, flags = SWITCH_PRIMARY OR SWITCH_POLARITY OR SWITCH_PHASE, bits = 23,
      seed = 0x32066c, taps = 0x041040, length_tc = 2110000, safe = 2090000 \<rparr>,
    \<lparr> name = ''traktor_mk2_a'', desc = ''Traktor Scratch MK2, side A'',
      resolution = 2500, flags = OFFSET_MODULATION, bits = 110,
      seed = UINT128 0x339c1f39f18c 0x7fe0063f8f83e0f9,
      taps = UINT128 0x400000000040 0x0000010800000001,
      length_tc = 1620000, safe = 1600000 \<rparr>,
    \<lparr> name = ''traktor_mk2_b'', desc = ''Traktor Scratch MK2, side B'',
      resolution = 2500, flags = OFFSET_MODULATION, bits = 110,
      seed = UINT128 0x20e73fc0707c 0xf8c00e7ffcf807c0,
      taps = UINT128 0x400000000040 0x0000010800000001,
      length_tc = 2295000, safe = 2285000 \<rparr>,
    \<lparr> name = ''traktor_mk2_cd'', desc = ''Traktor Scratch MK2, CD'',
      resolution = 3000, flags = OFFSET_MODULATION, bits = 113,
      seed = UINT128 0x1f9fff01f1ff9 0xfe7f9c1ff9cff3e3,
      taps = UINT128 0x400000000000 0x1000010800000001,
      length_tc = 4950000, safe = 4940000 \<rparr>,
    \<lparr> name = ''mixvibes_v2'', desc = ''MixVibes V2'',
      resolution = 1300, flags = SWITCH_PHASE, bits = 20,
      seed = 0x22c90, taps = 0x00008, length_tc = 950000, safe = 923000 \<rparr>,
    \<lparr> name = ''mixvibes_7inch'', desc = ''MixVibes 7\"'',
      resolution = 1300, flags = SWITCH_PHASE, bits = 20,
      seed = 0x22c90, taps = 0x00008, length_tc = 312000, safe = 310000 \<rparr>,
    \<lparr> name = ''pioneer_a'', desc = ''Pioneer RekordBox DVS Control Vinyl, side A'',
      resolution = 1000, flags = SWITCH_POLARITY, bits = 20,
      seed = 0x78370, taps = 0x7933a, length_tc = 635000, safe = 614000 \<rparr>,
    \<lparr> name = ''pioneer_b'', desc = ''Pioneer RekordBox DVS Control Vinyl, side B'',
      resolution = 1000, flags = SWITCH_POLARITY, bits = 20,
      seed = 0xf7012, taps = 0x2ef1c, length_tc = 918500, safe = 913000 \<rparr>
  ]"

section \<open>LFSR primitives\<close>

text \<open>
  \<^verbatim>\<open>lfsr\<close>: the loop adds the low bit of \<^verbatim>\<open>taken\<close> to the \<^verbatim>\<open>int\<close> counter
  \<^verbatim>\<open>xrs\<close> and shifts \<^verbatim>\<open>taken\<close> right until it is zero.
\<close>

function lfsr_loop :: "bits_t \<Rightarrow> int32 \<Rightarrow> int32" where
  "lfsr_loop taken xrs =
     (if taken \<noteq> 0 then lfsr_loop (drop_bit 1 taken) (xrs + ucast (taken AND 1)) else xrs)"
  by pat_completeness auto
termination
proof (relation "measure (\<lambda>(taken, xrs). unat taken)")
  show "wf (measure (\<lambda>(taken :: bits_t, xrs :: int32). unat taken))" by simp
next
  fix taken :: bits_t and xrs :: int32
  assume "taken \<noteq> 0"
  then have "0 < unat taken" by (simp add: unat_gt_0)
  then have "unat taken div 2 < unat taken" by simp
  then show "((drop_bit 1 taken, xrs + ucast (taken AND 1)), (taken, xrs))
      \<in> measure (\<lambda>(taken, xrs). unat taken)"
    by (simp add: drop_bit_eq_div unat_div)
qed

declare lfsr_loop.simps [simp del]

definition lfsr :: "bits_t \<Rightarrow> bits_t \<Rightarrow> bits_t" where
  "lfsr code tps = scast (lfsr_loop (code AND tps) 0 AND 1)"

definition fwd :: "bits_t \<Rightarrow> timecode_def \<Rightarrow> bits_t" where
  "fwd current d =
     (let l = lfsr current (taps d OR 0x1)
      in drop_bit 1 current OR push_bit (bits d - 1) l)"

definition rev_tc :: "bits_t \<Rightarrow> timecode_def \<Rightarrow> bits_t" where
  "rev_tc current d =
     (let one = (1 :: bits_t);
          taps_shifted = drop_bit 1 (taps d);
          bits_shifted = push_bit (bits d - 1) one;
          mask = push_bit (bits d) one - one;
          l = lfsr current (taps_shifted OR bits_shifted)
      in (push_bit 1 current AND mask) OR l)"

text \<open>The register values visited from the seed: \<open>x\<^sub>0 = seed\<close>, \<open>x\<^sub>i\<^sub>+\<^sub>1 = fwd x\<^sub>i\<close>.\<close>

inductive reachable_state :: "timecode_def \<Rightarrow> bits_t \<Rightarrow> bool" for d where
  at_seed: "reachable_state d (seed d)"
| after_fwd: "reachable_state d x \<Longrightarrow> reachable_state d (fwd x d)"

text \<open>Number of set bits of a register and its parity, used to describe \<^const>\<open>lfsr\<close>.\<close>

definition pc :: "bits_t \<Rightarrow> nat" where
  "pc w = (\<Sum>i<128. of_bool (bit w i))"

definition par :: "bits_t \<Rightarrow> bool" where
  "par w = odd (pc w)"

section \<open>Lookup table\<close>

text \<open>
  Modelled from the spec: the lookup table of \<^verbatim>\<open>lut.c\<close> (\<^verbatim>\<open>lut_init\<close>, \<^verbatim>\<open>lut_push\<close>,
  \<^verbatim>\<open>lut_lookup\<close>), which is not part of the sources at hand. The spec describes it as
  a mapping from LFSR state to ordinal position that returns a sentinel for absent keys;
  \<^verbatim>\<open>lut_push\<close> takes no position, so the position of a state is the number of states
  pushed before it. The table is the list of pushed states in push order; the sentinel
  is \<^const>\<open>None\<close>.
\<close>

type_synonym lut = "bits_t list"

definition lut_init :: lut where
  "lut_init = []"

definition lut_push :: "lut \<Rightarrow> bits_t \<Rightarrow> lut" where
  "lut_push l x = l @ [x]"

fun lut_index :: "lut \<Rightarrow> bits_t \<Rightarrow> nat \<Rightarrow> nat option" where
  "lut_index [] x n = None"
| "lut_index (y # ys) x n = (if y = x then Some n else lut_index ys x (Suc n))"

definition lut_lookup :: "lut \<Rightarrow> bits_t \<Rightarrow> nat option" where
  "lut_lookup l x = lut_index l x 0"

text \<open>The mutable members of a catalog entry: \<^verbatim>\<open>lookup\<close> (built flag) and \<^verbatim>\<open>lut\<close>.\<close>

record def_state =
  lookup :: bool
  lut_of :: lut

type_synonym catalog_state = "def_state list"

datatype error = AssertionFailed | OutOfMemory

section \<open>Building the lookup table\<close>

text \<open>
  The loop of \<^verbatim>\<open>build_lookup\<close>, from counter \<open>n\<close> up to \<^verbatim>\<open>def->length\<close>. Each
  \<^verbatim>\<open>assert\<close> that fails aborts the program.
\<close>

function build_loop :: "timecode_def \<Rightarrow> uint32 \<Rightarrow> bits_t \<Rightarrow> lut \<Rightarrow> error + lut" where
  "build_loop d n current l =
     (if n < length_tc d then
        (if lut_lookup l current \<noteq> None then Inl AssertionFailed
         else let l' = lut_push l current;
                  next = fwd current d
              in if rev_tc next d \<noteq> current then Inl AssertionFailed
                 else build_loop d (n + 1) next l')
      else Inr l)"
  by pat_completeness auto
termination
proof (relation "measure (\<lambda>(d, n, current, l). unat (length_tc d) - unat n)", goal_cases)
  case 1
  show ?case by simp
next
  case (2 d n current l x xa)
  then have lt: "unat n < unat (length_tc d)" by (simp add: word_less_nat_alt)
  moreover have "unat (length_tc d) < 2 ^ 32"
    using unsigned_less [of "length_tc d", where ?'a = nat] by simp
  ultimately have "unat n + 1 < 2 ^ 32" by simp
  then have "unat (n + 1) = Suc (unat n)"
    by (simp add: unat_word_ariths)
  with lt show ?case by simp
qed

declare build_loop.simps [simp del]

text \<open>
  \<^verbatim>\<open>build_lookup\<close> on one catalog entry: nothing to do when the table is built; the
  allocation inside \<^verbatim>\<open>lut_init\<close> may fail (\<open>mem_ok\<close> tells whether it succeeds).
\<close>

definition build_lookup :: "bool \<Rightarrow> timecode_def \<Rightarrow> def_state \<Rightarrow> error + def_state" where
  "build_lookup mem_ok d st =
     (if lookup st then Inr st
      else if \<not> mem_ok then Inl OutOfMemory
      else case build_loop d 0 (seed d) lut_init of
             Inl e \<Rightarrow> Inl e
           | Inr l \<Rightarrow> Inr \<lparr> lookup = True, lut_of = l \<rparr>)"

text \<open>The linear search of \<^verbatim>\<open>timecoder_find_definition\<close>, without the build.\<close>

fun find_name :: "timecode_def list \<Rightarrow> string \<Rightarrow> nat \<Rightarrow> nat option" where
  "find_name [] nm n = None"
| "find_name (d # ds) nm n = (if name d \<noteq> nm then find_name ds nm (Suc n) else Some n)"

text \<open>
  \<^verbatim>\<open>timecoder_find_definition\<close>: the index of the entry found and the catalog state
  after the build; \<^const>\<open>None\<close> is \<^verbatim>\<open>NULL\<close> (not found, or out of memory).
\<close>

definition timecoder_find_definition ::
    "bool \<Rightarrow> catalog_state \<Rightarrow> string \<Rightarrow> error + (nat option \<times> catalog_state)" where
  "timecoder_find_definition mem_ok cat nm =
     (case find_name timecodes nm 0 of
        None \<Rightarrow> Inr (None, cat)
      | Some n \<Rightarrow>
          (case build_lookup mem_ok (timecodes ! n) (cat ! n) of
             Inl OutOfMemory \<Rightarrow> Inr (None, cat)
           | Inl AssertionFailed \<Rightarrow> Inl AssertionFailed
           | Inr st \<Rightarrow> Inr (Some n, cat[n := st])))"

section \<open>Decoder state\<close>

record timecoder_channel =
  positive :: bool
  swapped :: bool
  zero :: int32
  crossing_ticker :: uint32

text \<open>The circular buffer of the offset-modulation path, as far as the decoder touches it.\<close>

record cbuf_t =
  array :: "int32 list"
  size_cbuf :: int32
  read_ptr :: int32
  write_ptr :: int32

text \<open>
  \<^verbatim>\<open>struct timecoder\<close>. \<open>'f\<close> stands for C's \<^verbatim>\<open>double\<close> and \<open>'p\<close> for the pitch
  filter's state; \<open>def\<close> is the pointer into \<^const>\<open>timecodes\<close>, as an index; \<open>mon\<close> is
  \<^const>\<open>None\<close> for a \<^verbatim>\<open>NULL\<close> monitor.
\<close>

record ('f, 'p) timecoder =
  "def" :: nat
  speed :: 'f
  dt :: 'f
  zero_alpha :: 'f
  threshold :: int32
  forwards :: bool
  primary :: timecoder_channel
  secondary :: timecoder_channel
  pitch :: 'p
  ref_level :: int32
  bitstream :: bits_t
  timecode :: bits_t
  valid_counter :: uint32
  timecode_ticker :: uint32
  cbuf :: cbuf_t
  mon :: "8 word list option"
  mon_size :: int32
  mon_counter :: int32

text \<open>
  What the decoder takes from outside this file, as parameters: the floating-point
  expressions (on \<open>'f\<close>), the pitch filter, the filters of \<^verbatim>\<open>filters.h\<close> with their
  process-wide state \<open>'g\<close>, \<^verbatim>\<open>cbuf_push\<close>, and the value the platform gives to the
  shift \<^verbatim>\<open>1 << n\<close> on \<^verbatim>\<open>int\<close> where C leaves it undefined (\<open>n \<ge> 31\<close>).
  \<^item> \<open>zero_filter alpha z dv\<close> is the value stored by \<^verbatim>\<open>ch->zero += alpha * (v - ch->zero)\<close>
    for \<open>z = ch->zero\<close> and the \<^verbatim>\<open>int\<close> difference \<open>dv = v - ch->zero\<close>;
  \<^item> \<open>fp_dt rate\<close> is \<^verbatim>\<open>1.0 / sample_rate\<close>, \<open>fp_zero_alpha dt\<close> is \<^verbatim>\<open>dt / (ZERO_RC + dt)\<close>;
  \<^item> \<open>fp_quarter res\<close> is \<^verbatim>\<open>1.0 / resolution / 4\<close>, \<open>fp_neg\<close> is negation, \<open>fp_zero\<close> is \<^verbatim>\<open>0.0\<close>;
  \<^item> \<open>fp_elapsed ticker dt\<close> is \<^verbatim>\<open>timecode_ticker * dt\<close>;
  \<^item> \<open>offset_filter g p s\<close> gives \<^verbatim>\<open>primary_deriv\<close>, \<^verbatim>\<open>secondary_deriv\<close> and the new
    filter state; \<open>monitor_filter g l r\<close> gives the two arguments of \<^verbatim>\<open>update_monitor\<close>
    on the offset-modulation path (\<^verbatim>\<open>mon_left * 1.25\<close>, \<^verbatim>\<open>mon_right * 1.25\<close>).
\<close>

record ('f, 'p, 'g) platform =
  zero_filter :: "'f \<Rightarrow> int32 \<Rightarrow> int32 \<Rightarrow> int32"
  fp_dt :: "uint32 \<Rightarrow> 'f"
  fp_zero_alpha :: "'f \<Rightarrow> 'f"
  fp_quarter :: "int32 \<Rightarrow> 'f"
  fp_neg :: "'f \<Rightarrow> 'f"
  fp_zero :: 'f
  fp_elapsed :: "uint32 \<Rightarrow> 'f \<Rightarrow> 'f"
  pitch_init :: "'p \<Rightarrow> 'f \<Rightarrow> 'p"
  pitch_dt_observation :: "'p \<Rightarrow> 'f \<Rightarrow> 'p"
  offset_filter :: "'g \<Rightarrow> int32 \<Rightarrow> int32 \<Rightarrow> int32 \<times> int32 \<times> 'g"
  monitor_filter :: "'g \<Rightarrow> int32 \<Rightarrow> int32 \<Rightarrow> int32 \<times> int32 \<times> 'g"
  cbuf_push :: "cbuf_t \<Rightarrow> int32 \<Rightarrow> cbuf_t"
  int_shl_undefined :: "nat \<Rightarrow> int32"

text \<open>\<^verbatim>\<open>1 << n\<close> on \<^verbatim>\<open>int\<close>.\<close>

definition int_shl1 :: "('f, 'p, 'g) platform \<Rightarrow> nat \<Rightarrow> int32" where
  "int_shl1 K n = (if n < 31 then push_bit n 1 else int_shl_undefined K n)"

section \<open>Initialisation\<close>

definition init_channel :: "timecoder_channel \<Rightarrow> timecoder_channel" where
  "init_channel ch = ch\<lparr> positive := False, zero := 0 \<rparr>"

text \<open>
  The loop of \<^verbatim>\<open>timecoder_init\<close> that zeroes \<^verbatim>\<open>array[0 .. size-1]\<close>, for the
  \<^verbatim>\<open>size\<close> found in the structure (entries beyond the array are not modelled).
\<close>

definition zero_prefix :: "int32 \<Rightarrow> int32 list \<Rightarrow> int32 list" where
  "zero_prefix n xs = replicate (min (nat (sint n)) (length xs)) 0 @ drop (nat (sint n)) xs"

text \<open>
  \<^verbatim>\<open>timecoder_init\<close>, on the structure \<open>tc\<close> as found (uninitialised members keep
  their value); \<open>dp\<close> is the pointer \<^verbatim>\<open>def\<close>, \<^const>\<open>None\<close> for \<^verbatim>\<open>NULL\<close>.
\<close>

definition timecoder_init ::
    "('f, 'p, 'g) platform \<Rightarrow> catalog_state \<Rightarrow> ('f, 'p) timecoder \<Rightarrow> nat option \<Rightarrow> 'f \<Rightarrow> uint32 \<Rightarrow> bool
      \<Rightarrow> error + ('f, 'p) timecoder" where
  "timecoder_init K cat tc dp speed_v sample_rate phono =
     (case dp of
        None \<Rightarrow> Inl AssertionFailed
      | Some i \<Rightarrow>
          if \<not> lookup (cat ! i) then Inl AssertionFailed
          else
            let tc = tc\<lparr> def := i, speed := speed_v \<rparr>;
                tc = tc\<lparr> dt := fp_dt K sample_rate \<rparr>;
                tc = tc\<lparr> zero_alpha := fp_zero_alpha K (dt tc) \<rparr>;
                tc = tc\<lparr> threshold := ZERO_THRESHOLD \<rparr>;
                tc = (if phono then tc\<lparr> threshold := signed_drop_bit 5 (threshold tc) \<rparr> else tc);
                tc = tc\<lparr> forwards := True \<rparr>;
                tc = tc\<lparr> primary := init_channel (primary tc) \<rparr>;
                tc = tc\<lparr> secondary := init_channel (secondary tc) \<rparr>;
                tc = tc\<lparr> pitch := pitch_init K (pitch tc) (dt tc) \<rparr>;
                tc = tc\<lparr> ref_level := 0x7fffffff, bitstream := 0, timecode := 0,
                         valid_counter := 0, timecode_ticker := 0, mon := None \<rparr>
            in Inr (if flags (timecodes ! def tc) AND OFFSET_MODULATION \<noteq> 0
                    then tc\<lparr> cbuf := \<lparr> array = zero_prefix (size_cbuf (cbuf tc)) (array (cbuf tc)),
                                         size_cbuf = 10, read_ptr = 0, write_ptr = 0 \<rparr> \<rparr>
                    else tc))"

definition timecoder_clear :: "('f, 'p) timecoder \<Rightarrow> error + ('f, 'p) timecoder" where
  "timecoder_clear tc = (if mon tc \<noteq> None then Inl AssertionFailed else Inr tc)"

text \<open>
  \<^verbatim>\<open>timecoder_monitor_init\<close>; \<open>mem_ok\<close> tells whether \<^verbatim>\<open>malloc\<close> succeeds. The result is
  the return value and the structure.
\<close>

definition timecoder_monitor_init ::
    "bool \<Rightarrow> ('f, 'p) timecoder \<Rightarrow> int32 \<Rightarrow> error + (int32 \<times> ('f, 'p) timecoder)" where
  "timecoder_monitor_init mem_ok tc sz =
     (if mon tc \<noteq> None then Inl AssertionFailed
      else
        let tc = tc\<lparr> mon_size := sz \<rparr>
        in if \<not> mem_ok then Inr (- 1, tc)
           else Inr (0, tc\<lparr> mon := Some (replicate (nat (sint (mon_size tc * mon_size tc))) 0),
                            mon_counter := 0 \<rparr>))"

definition timecoder_monitor_clear :: "('f, 'p) timecoder \<Rightarrow> error + ('f, 'p) timecoder" where
  "timecoder_monitor_clear tc =
     (if mon tc = None then Inl AssertionFailed else Inr (tc\<lparr> mon := None \<rparr>))"

section \<open>Zero crossings\<close>

definition detect_zero_crossing ::
    "('f, 'p, 'g) platform \<Rightarrow> timecoder_channel \<Rightarrow> int32 \<Rightarrow> 'f \<Rightarrow> int32 \<Rightarrow> timecoder_channel" where
  "detect_zero_crossing K ch v alpha thr =
     (let ch = ch\<lparr> crossing_ticker := crossing_ticker ch + 1 \<rparr>;
          ch = ch\<lparr> swapped := False \<rparr>;
          ch = (if zero ch + thr <s v \<and> \<not> positive ch then
                  ch\<lparr> swapped := True, positive := True, crossing_ticker := 0 \<rparr>
                else if v <s zero ch - thr \<and> positive ch then
                  ch\<lparr> swapped := True, positive := False, crossing_ticker := 0 \<rparr>
                else ch)
      in ch\<lparr> zero := zero_filter K alpha (zero ch) (v - zero ch) \<rparr>)"

section \<open>Monitor\<close>

definition decay :: "8 word \<Rightarrow> 8 word" where
  "decay v = (if v \<noteq> 0 then ucast (sdiv32 (ucast v * 7) 8) else v)"

definition monitor_coord :: "int32 \<Rightarrow> int32 \<Rightarrow> int32 \<Rightarrow> int32" where
  "monitor_coord sz v ref =
     ucast ((scast (sdiv32 sz 2) :: 64 word)
            + sdiv64 (sdiv64 (scast v * scast sz) (scast ref)) 8)"

definition update_monitor ::
    "('f, 'p) timecoder \<Rightarrow> int32 \<Rightarrow> int32 \<Rightarrow> error + ('f, 'p) timecoder" where
  "update_monitor tc x y =
     (case mon tc of
        None \<Rightarrow> Inr tc
      | Some pixels \<Rightarrow>
          let sz = mon_size tc;
              ref = ref_level tc;
              tc = tc\<lparr> mon_counter := mon_counter tc + 1 \<rparr>;
              n = nat (sint (sz * sz));
              pixels = (if sint (mon_counter tc) smod MONITOR_DECAY_EVERY = 0
                        then map decay (take n pixels) @ drop n pixels else pixels);
              tc = tc\<lparr> mon := Some pixels \<rparr>
          in if \<not> 0 <s ref then Inl AssertionFailed
             else
               let px = monitor_coord sz x ref;
                   py = monitor_coord sz y ref
               in if px <s 0 \<or> sz \<le>s px \<or> py <s 0 \<or> sz \<le>s py then Inr tc
                  else Inr (tc\<lparr> mon := Some (pixels[nat (sint (py * sz + px)) := 0xff]) \<rparr>))"

section \<open>Bitstream\<close>

definition process_bitstream ::
    "('f, 'p, 'g) platform \<Rightarrow> ('f, 'p) timecoder \<Rightarrow> int32 \<Rightarrow> ('f, 'p) timecoder" where
  "process_bitstream K tc m =
     (let d = timecodes ! def tc;
          tc = (if flags d AND OFFSET_MODULATION \<noteq> 0
                then tc\<lparr> cbuf := cbuf_push K (cbuf tc) m \<rparr> else tc);
          b = (of_bool (ref_level tc <s m) :: bits_t);
          tc = (if forwards tc then
                  tc\<lparr> timecode := fwd (timecode tc) d,
                      bitstream := drop_bit 1 (bitstream tc) + push_bit (bits d - 1) b \<rparr>
                else
                  let mask = (scast (int_shl1 K (bits d) - 1) :: bits_t)
                  in tc\<lparr> timecode := rev_tc (timecode tc) d,
                         bitstream := (push_bit 1 (bitstream tc) AND mask) + b \<rparr>);
          tc = (if timecode tc = bitstream tc then
                  tc\<lparr> valid_counter := valid_counter tc + 1 \<rparr>
                else
                  tc\<lparr> timecode := bitstream tc, valid_counter := 0 \<rparr>);
          tc = tc\<lparr> timecode_ticker := 0 \<rparr>;
          tc = tc\<lparr> ref_level := ref_level tc - sdiv32 (ref_level tc) REF_PEAKS_AVG \<rparr>
      in tc\<lparr> ref_level := ref_level tc + sdiv32 m REF_PEAKS_AVG \<rparr>)"

section \<open>Processing one sample\<close>

text \<open>The four parts of \<^verbatim>\<open>process_sample\<close>, in the order of the source.\<close>

definition detect_channels ::
    "('f, 'p, 'g) platform \<Rightarrow> 'g \<Rightarrow> ('f, 'p) timecoder \<Rightarrow> int32 \<Rightarrow> int32 \<Rightarrow> 'g \<times> ('f, 'p) timecoder" where
  "detect_channels K g tc primary_v secondary_v =
     (if flags (timecodes ! def tc) AND OFFSET_MODULATION \<noteq> 0 then
        (case offset_filter K g primary_v secondary_v of
           (primary_deriv, secondary_deriv, g') \<Rightarrow>
             (g', tc\<lparr> primary := detect_zero_crossing K (primary tc) primary_deriv
                                     (zero_alpha tc) (threshold tc),
                      secondary := detect_zero_crossing K (secondary tc) secondary_deriv
                                     (zero_alpha tc) (threshold tc) \<rparr>))
      else
        (g, tc\<lparr> primary := detect_zero_crossing K (primary tc) primary_v
                               (zero_alpha tc) (threshold tc),
                secondary := detect_zero_crossing K (secondary tc) secondary_v
                               (zero_alpha tc) (threshold tc) \<rparr>))"

definition crossing_direction :: "('f, 'p) timecoder \<Rightarrow> bool" where
  "crossing_direction tc =
     (let fw = (if swapped (primary tc)
                then positive (primary tc) \<noteq> positive (secondary tc)
                else positive (primary tc) = positive (secondary tc))
      in if flags (timecodes ! def tc) AND SWITCH_PHASE \<noteq> 0 then \<not> fw else fw)"

definition update_direction :: "('f, 'p) timecoder \<Rightarrow> ('f, 'p) timecoder" where
  "update_direction tc =
     (if swapped (primary tc) \<or> swapped (secondary tc) then
        (let fw = crossing_direction tc
         in if fw \<noteq> forwards tc then tc\<lparr> forwards := fw, valid_counter := 0 \<rparr> else tc)
      else tc)"

definition observe_pitch :: "('f, 'p, 'g) platform \<Rightarrow> ('f, 'p) timecoder \<Rightarrow> ('f, 'p) timecoder" where
  "observe_pitch K tc =
     (if \<not> swapped (primary tc) \<and> \<not> swapped (secondary tc) then
        tc\<lparr> pitch := pitch_dt_observation K (pitch tc) (fp_zero K) \<rparr>
      else
        let dx = fp_quarter K (resolution (timecodes ! def tc));
            dx = (if \<not> forwards tc then fp_neg K dx else dx)
        in tc\<lparr> pitch := pitch_dt_observation K (pitch tc) dx \<rparr>)"

definition read_bit ::
    "('f, 'p, 'g) platform \<Rightarrow> ('f, 'p) timecoder \<Rightarrow> int32 \<Rightarrow> ('f, 'p) timecoder" where
  "read_bit K tc primary_v =
     (if swapped (secondary tc)
         \<and> positive (primary tc) = (flags (timecodes ! def tc) AND SWITCH_POLARITY = 0)
      then
        let m = abs32 (sdiv32 primary_v 2 - sdiv32 (zero (primary tc)) 2)
        in process_bitstream K tc m
      else tc)"

definition process_sample ::
    "('f, 'p, 'g) platform \<Rightarrow> 'g \<Rightarrow> ('f, 'p) timecoder \<Rightarrow> int32 \<Rightarrow> int32 \<Rightarrow> 'g \<times> ('f, 'p) timecoder" where
  "process_sample K g tc primary_v secondary_v =
     (case detect_channels K g tc primary_v secondary_v of
        (g', tc) \<Rightarrow>
          let tc = update_direction tc;
              tc = observe_pitch K tc;
              tc = read_bit K tc primary_v
          in (g', tc\<lparr> timecode_ticker := timecode_ticker tc + 1 \<rparr>))"

section \<open>Cycling definitions, submitting audio, reading the position\<close>

text \<open>
  \<^verbatim>\<open>next_definition\<close>: the \<^verbatim>\<open>do ... while\<close> loop steps through the catalog, wrapping
  at the end, until an entry with a built table is found; it does not return when there
  is none (the value \<^const>\<open>None\<close>).
\<close>

partial_function (option) next_definition :: "catalog_state \<Rightarrow> nat \<Rightarrow> nat option" where
  "next_definition cat i =
     (let j = (if Suc i \<ge> length timecodes then 0 else Suc i)
      in if lookup (cat ! j) then Some j else next_definition cat j)"

definition timecoder_cycle_definition ::
    "catalog_state \<Rightarrow> ('f, 'p) timecoder \<Rightarrow> ('f, 'p) timecoder option" where
  "timecoder_cycle_definition cat tc =
     (case next_definition cat (def tc) of
        None \<Rightarrow> None
      | Some j \<Rightarrow> Some (tc\<lparr> def := j, valid_counter := 0, timecode_ticker := 0 \<rparr>))"

text \<open>\<^verbatim>\<open>timecoder_submit\<close> on a block of frames (left, right) of 16-bit samples.\<close>

fun timecoder_submit ::
    "('f, 'p, 'g) platform \<Rightarrow> 'g \<Rightarrow> ('f, 'p) timecoder \<Rightarrow> (16 word \<times> 16 word) list
      \<Rightarrow> error + ('g \<times> ('f, 'p) timecoder)" where
  "timecoder_submit K g tc [] = Inr (g, tc)"
| "timecoder_submit K g tc ((pcm0, pcm1) # pcm) =
     (let left = (push_bit 16 (scast pcm0) :: int32);
          right = (push_bit 16 (scast pcm1) :: int32);
          (primary_v, secondary_v) =
             (if flags (timecodes ! def tc) AND SWITCH_PRIMARY \<noteq> 0
              then (left, right) else (right, left))
      in case process_sample K g tc primary_v secondary_v of
           (g, tc) \<Rightarrow>
             (case (if flags (timecodes ! def tc) AND OFFSET_MODULATION \<noteq> 0
                    then (case monitor_filter K g left right of
                            (mon_left, mon_right, g') \<Rightarrow> (g', update_monitor tc mon_left mon_right))
                    else (g, update_monitor tc left right)) of
                (g, Inl e) \<Rightarrow> Inl e
              | (g, Inr tc) \<Rightarrow> timecoder_submit K g tc pcm))"

text \<open>
  \<^verbatim>\<open>timecoder_get_position\<close>. \<open>when\<close> is the out-parameter: \<^const>\<open>None\<close> for a
  \<^verbatim>\<open>NULL\<close> pointer, otherwise the content of the cell it points to. The result is the
  decoder after the call, the cell after the call and the return value. The value of
  \<^verbatim>\<open>lut_lookup\<close> is converted to \<^verbatim>\<open>signed int\<close>; the sentinel becomes \<open>-1\<close>.
\<close>

definition timecoder_get_position ::
    "('f, 'p, 'g) platform \<Rightarrow> catalog_state \<Rightarrow> ('f, 'p) timecoder \<Rightarrow> 'f option
      \<Rightarrow> ('f, 'p) timecoder \<times> 'f option \<times> int32" where
  "timecoder_get_position K cat tc when =
     (if valid_counter tc \<le> VALID_BITS then (tc, when, - 1)
      else
        let r = (case lut_lookup (lut_of (cat ! def tc)) (bitstream tc) of
                   None \<Rightarrow> (- 1 :: int32)
                 | Some p \<Rightarrow> of_nat p)
        in if r = - 1 then (tc, when, - 1)
           else
             (tc, (case when of None \<Rightarrow> None
                             | Some w \<Rightarrow> Some (fp_elapsed K (timecode_ticker tc) (dt tc))), r))"

section \<open>Operations and reachable decoder states\<close>

text \<open>
  The operations of this file on an initialised decoder. \<^const>\<open>timecoder_submit\<close> is a
  sequence of \<^const>\<open>process_sample\<close> and \<^const>\<open>update_monitor\<close>, which are
  operations of their own here. The catalog state and the filters' state may be any at
  each operation.
\<close>

inductive decoder_op ::
    "('f, 'p, 'g) platform \<Rightarrow> ('f, 'p) timecoder \<Rightarrow> ('f, 'p) timecoder \<Rightarrow> bool" for K where
  op_sample: "process_sample K g tc primary_v secondary_v = (g', tc') \<Longrightarrow> decoder_op K tc tc'"
| op_monitor: "update_monitor tc x y = Inr tc' \<Longrightarrow> decoder_op K tc tc'"
| op_submit: "timecoder_submit K g tc pcm = Inr (g', tc') \<Longrightarrow> decoder_op K tc tc'"
| op_cycle: "timecoder_cycle_definition cat tc = Some tc' \<Longrightarrow> decoder_op K tc tc'"
| op_monitor_init: "timecoder_monitor_init mem_ok tc sz = Inr (r, tc') \<Longrightarrow> decoder_op K tc tc'"
| op_monitor_clear: "timecoder_monitor_clear tc = Inr tc' \<Longrightarrow> decoder_op K tc tc'"
| op_clear: "timecoder_clear tc = Inr tc' \<Longrightarrow> decoder_op K tc tc'"
| op_get_position: "timecoder_get_position K cat tc when = (tc', when', pos)
      \<Longrightarrow> decoder_op K tc tc'"

text \<open>A decoder is initialised by \<^const>\<open>timecoder_init\<close> and then changed by operations.\<close>

inductive reachable_tc :: "('f, 'p, 'g) platform \<Rightarrow> ('f, 'p) timecoder \<Rightarrow> bool" for K where
  r_init: "timecoder_init K cat tc0 dp speed_v sample_rate phono = Inr tc \<Longrightarrow> reachable_tc K tc"
| r_op: "reachable_tc K tc \<Longrightarrow> decoder_op K tc tc' \<Longrightarrow> reachable_tc K tc'"

text \<open>The valid counter is 0 whenever the expected timecode differs from the bitstream.\<close>

definition resync_inv :: "('f, 'p) timecoder \<Rightarrow> bool" where
  "resync_inv tc \<longleftrightarrow> (timecode tc \<noteq> bitstream tc \<longrightarrow> valid_counter tc = 0)"

section \<open>Concrete inputs\<close>

text \<open>
  A platform, a structure as found before initialisation and a catalog state, used where
  a statement below is instantiated at concrete values. The platform computes on
  integers in place of floating-point numbers and has no filter state.
\<close>

definition sample_platform :: "(int, unit, unit) platform" where
  "sample_platform =
     \<lparr> zero_filter = (\<lambda>alpha z dv. z + sdiv32 dv 64),
       fp_dt = (\<lambda>rate. 1),
       fp_zero_alpha = (\<lambda>dt. 1),
       fp_quarter = (\<lambda>res. 1),
       fp_neg = (\<lambda>x. - x),
       fp_zero = 0,
       fp_elapsed = (\<lambda>ticker dt. int (unat ticker) * dt),
       pitch_init = (\<lambda>p dt. ()),
       pitch_dt_observation = (\<lambda>p dx. ()),
       offset_filter = (\<lambda>g p s. (p, s, ())),
       monitor_filter = (\<lambda>g l r. (l, r, ())),
       cbuf_push = (\<lambda>c m. c),
       int_shl_undefined = (\<lambda>n. 0) \<rparr>"

definition blank_channel :: timecoder_channel where
  "blank_channel = \<lparr> positive = False, swapped = False, zero = 0, crossing_ticker = 0 \<rparr>"

definition blank_tc :: "(int, unit) timecoder" where
  "blank_tc =
     \<lparr> def = 0, speed = 0, dt = 0, zero_alpha = 0, threshold = 0, forwards = False,
       primary = blank_channel, secondary = blank_channel, pitch = (),
       ref_level = 0, bitstream = 0, timecode = 0, valid_counter = 0, timecode_ticker = 0,
       cbuf = \<lparr> array = [], size_cbuf = 0, read_ptr = 0, write_ptr = 0 \<rparr>,
       mon = None, mon_size = 0, mon_counter = 0 \<rparr>"

definition sample_catalog :: catalog_state where
  "sample_catalog = replicate 12 \<lparr> lookup = True, lut_of = [5, 7, 9] \<rparr>"

text \<open>
  The decoder after \<^const>\<open>timecoder_init\<close> on the first format of the catalog; the same
  decoder inside \<^const>\<open>process_sample\<close> for the sample \<open>(2\<^sup>3\<^sup>0, 2\<^sup>3\<^sup>0)\<close>, at the
  call of \<^const>\<open>process_bitstream\<close> (both channels have just crossed upwards, so the
  direction is now reverse); and the decoder after that sample.
\<close>

definition crossed_channel :: timecoder_channel where
  "crossed_channel =
     \<lparr> positive = True, swapped = True, zero = 0x1000000, crossing_ticker = 0 \<rparr>"

definition started_tc :: "(int, unit) timecoder" where
  "started_tc = blank_tc\<lparr> dt := 1, zero_alpha := 1, threshold := ZERO_THRESHOLD,
                  forwards := True, ref_level := 0x7fffffff \<rparr>"

definition crossed_tc :: "(int, unit) timecoder" where
  "crossed_tc = started_tc\<lparr> forwards := False, primary := crossed_channel,
                  secondary := crossed_channel \<rparr>"

definition decoded_tc :: "(int, unit) timecoder" where
  "decoded_tc = crossed_tc\<lparr> ref_level := 2113754453, valid_counter := 1,
                  timecode_ticker := 1 \<rparr>"

section \<open>The register as a natural number\<close>

text \<open>
  The parity of the number of set bits of a natural number; \<^const>\<open>lfsr\<close> computes it
  for the register masked by the taps.
\<close>

function parn :: "nat \<Rightarrow> bool" where
  "parn n = (if n = 0 then False else (odd n \<noteq> parn (n div 2)))"
  by pat_completeness auto
termination by (relation "measure id") auto

declare parn.simps [simp del]

text \<open>
  The forward step on a register of \<open>k + 1\<close> bits, for the tap mask \<open>t\<close> and \<open>h = 2\<^sup>k\<close>:
  shift right and put the parity of the tapped bits at the top.
\<close>

definition fwdn :: "nat \<Rightarrow> nat \<Rightarrow> nat \<Rightarrow> nat" where
  "fwdn t h x = x div 2 + (if parn (x AND t) then h else 0)"

text \<open>
  \<open>evn t h r x\<close> applies to the state \<open>x\<close> the polynomial in the forward step whose
  coefficients are the bits of \<open>r\<close>: the XOR of the states \<open>step\<^sup>i x\<close> over the set bits \<open>i\<close>
  of \<open>r\<close>, by Horner's rule. \<open>addc a c r\<close> adds \<open>c\<close> to \<open>r\<close> when \<open>a\<close> is odd.
\<close>

definition addc :: "nat \<Rightarrow> nat \<Rightarrow> nat \<Rightarrow> nat" where
  "addc a c r = (if odd a then r XOR c else r)"

function evn :: "nat \<Rightarrow> nat \<Rightarrow> nat \<Rightarrow> nat \<Rightarrow> nat" where
  "evn t h r x = (if r = 0 then 0 else addc r x (fwdn t h (evn t h (r div 2) x)))"
  by pat_completeness auto
termination by (relation "measure (\<lambda>(t, h, r, x). r)") auto

declare evn.simps [simp del]

text \<open>
  The bit leaving the register at step \<open>n\<close>, and the XOR of the terms of a sequence
  selected by the set bits of \<open>r\<close>.
\<close>

definition outs :: "nat \<Rightarrow> nat \<Rightarrow> nat \<Rightarrow> nat \<Rightarrow> bool" where
  "outs t h x n = bit ((fwdn t h ^^ n) x) 0"

function xsum :: "nat \<Rightarrow> (nat \<Rightarrow> bool) \<Rightarrow> bool" where
  "xsum r s = (if r = 0 then False else ((odd r \<and> s 0) \<noteq> xsum (r div 2) (\<lambda>i. s (Suc i))))"
  by pat_completeness auto
termination by (relation "measure (\<lambda>(r, s). r)") auto

declare xsum.simps [simp del]

text \<open>Prime numbers, and a check of trial division by \<open>d, d + 1, \<dots>\<close> with the quotients given.\<close>

definition is_prime :: "nat \<Rightarrow> bool" where
  "is_prime p \<longleftrightarrow> 1 < p \<and> (\<forall>d. d dvd p \<longrightarrow> d = 1 \<or> d = p)"

fun chk :: "nat \<Rightarrow> nat \<Rightarrow> nat list \<Rightarrow> bool" where
  "chk p d [] = (p < d * d)"
| "chk p d (q # qs) = (q * d < p \<and> p < q * d + d \<and> chk p (d + 1) qs)"

section \<open>Polynomials over bits, as lists\<close>

text \<open>
  The same computations on lists of bits, least significant first, by pattern matching.
  \<open>val\<close> is the number a list stands for. A list \<open>G\<close> of \<open>m\<close> bits stands for the monic
  polynomial \<open>x\<^sup>m + G\<close>; \<open>mulx G r\<close> is \<open>x \<cdot> r\<close> modulo that polynomial, \<open>mml G a c\<close> is
  \<open>a \<cdot> c\<close> and \<open>pwl G n\<close> is \<open>x\<^sup>n\<close> modulo it, for the exponent with the bits \<open>n\<close>.
  \<open>fwdl\<close> and \<open>evl\<close> are \<^const>\<open>fwdn\<close> and \<^const>\<open>evn\<close> on lists, \<open>clmull\<close> is the
  product of polynomials and \<open>zerop\<close> tells whether all bits are clear.
\<close>

fun val :: "bool list \<Rightarrow> nat" where
  "val [] = 0"
| "val (b # bs) = of_bool b + 2 * val bs"

fun xorb :: "bool \<Rightarrow> bool \<Rightarrow> bool" where
  "xorb True True = False"
| "xorb True False = True"
| "xorb False True = True"
| "xorb False False = False"

fun xorl :: "bool list \<Rightarrow> bool list \<Rightarrow> bool list" where
  "xorl [] ys = ys"
| "xorl (x # xs) [] = x # xs"
| "xorl (x # xs) (y # ys) = xorb x y # xorl xs ys"

fun addcl :: "bool \<Rightarrow> bool list \<Rightarrow> bool list \<Rightarrow> bool list" where
  "addcl True c r = xorl r c"
| "addcl False c r = r"

fun shiftin :: "bool \<Rightarrow> bool list \<Rightarrow> bool list" where
  "shiftin c [] = []"
| "shiftin c (x # xs) = c # shiftin x xs"

fun lastb :: "bool list \<Rightarrow> bool" where
  "lastb [] = False"
| "lastb [x] = x"
| "lastb (x # y # ys) = lastb (y # ys)"

definition mulx :: "bool list \<Rightarrow> bool list \<Rightarrow> bool list" where
  "mulx G r = addcl (lastb r) G (shiftin False r)"

fun zerol :: "bool list \<Rightarrow> bool list" where
  "zerol [] = []"
| "zerol (x # xs) = False # zerol xs"

fun onel :: "bool list \<Rightarrow> bool list" where
  "onel [] = []"
| "onel (x # xs) = True # zerol xs"

fun mml :: "bool list \<Rightarrow> bool list \<Rightarrow> bool list \<Rightarrow> bool list" where
  "mml G [] c = zerol G"
| "mml G (b # as) c = addcl b c (mulx G (mml G as c))"

fun sq_stepl :: "bool list \<Rightarrow> bool \<Rightarrow> bool list \<Rightarrow> bool list" where
  "sq_stepl G True h = mulx G (mml G h h)"
| "sq_stepl G False h = mml G h h"

fun pwl :: "bool list \<Rightarrow> bool list \<Rightarrow> bool list" where
  "pwl G [] = onel G"
| "pwl G (b # ns) = sq_stepl G b (pwl G ns)"

fun parl :: "bool list \<Rightarrow> bool list \<Rightarrow> bool" where
  "parl [] ts = False"
| "parl (x # xs) [] = False"
| "parl (x # xs) (t # ts) = xorb (x \<and> t) (parl xs ts)"

fun fwdl :: "bool list \<Rightarrow> bool list \<Rightarrow> bool list" where
  "fwdl T [] = []"
| "fwdl T (x # xs) = xs @ [parl (x # xs) T]"

fun evl :: "bool list \<Rightarrow> bool list \<Rightarrow> bool list \<Rightarrow> bool list" where
  "evl T [] x = zerol x"
| "evl T (b # rs) x = addcl b x (fwdl T (evl T rs x))"

fun clmull :: "bool list \<Rightarrow> bool list \<Rightarrow> bool list" where
  "clmull [] c = []"
| "clmull (b # as) c = addcl b c (False # clmull as c)"

fun zerop :: "bool list \<Rightarrow> bool" where
  "zerop [] = True"
| "zerop (True # xs) = False"
| "zerop (False # xs) = zerop xs"

section \<open>Tap masks, seeds and orders of the catalog\<close>

text \<open>
  For each tap mask of the catalog: the bits of \<^verbatim>\<open>taps | 1\<close> within the register width
  (\<open>taps\<close>), a factor of the polynomial \<open>x\<^sup>b\<^sup>i\<^sup>t\<^sup>s + taps\<close> without its leading coefficient
  (\<open>factor\<close>) and the cofactor; for each seed its bits and the state obtained by applying
  the cofactor, as a polynomial in the forward step, to the seed (\<open>image\<close>); and for each
  degree of a factor the order \<open>2\<^sup>m - 1\<close> and its quotients by its prime factors. In these
  lists \<open>b1\<close> is a set bit and \<open>b0\<close> a clear one.
\<close>

abbreviation (input) b1 :: bool where
  "b1 \<equiv> True"

abbreviation (input) b0 :: bool where
  "b0 \<equiv> False"

definition order_20 :: "bool list" where
  "order_20 =
    [b1, b1, b1, b1, b1, b1, b1, b1, b1, b1, b1, b1, b1, b1, b1, b1, b1, b1, b1, b1]"

definition order_20_div_3 :: "bool list" where
  "order_20_div_3 =
    [b1, b0, b1, b0, b1, b0, b1, b0, b1, b0, b1, b0, b1, b0, b1, b0, b1, b0, b1]"

definition order_20_div_5 :: "bool list" where
  "order_20_div_5 =
    [b1, b1, b0, b0, b1, b1, b0, b0, b1, b1, b0, b0, b1, b1, b0, b0, b1, b1]"

definition order_20_div_11 :: "bool list" where
  "order_20_div_11 =
    [b1, b0, b1, b1, b1, b0, b1, b0, b0, b0, b1, b0, b1, b1, b1, b0, b1]"

definition order_20_div_31 :: "bool list" where
  "order_20_div_31 =
    [b1, b0, b0, b0, b0, b1, b0, b0, b0, b0, b1, b0, b0, b0, b0, b1]"

definition order_20_div_41 :: "bool list" where
  "order_20_div_41 =
    [b1, b1, b1, b0, b0, b1, b1, b1, b1, b1, b0, b0, b0, b1, b1]"

definition order_23 :: "bool list" where
  "order_23 =
    [b1, b1, b1, b1, b1, b1, b1, b1, b1, b1, b1, b1, b1, b1, b1, b1, b1, b1, b1, b1, b1, b1,
     b1]"

definition order_23_div_47 :: "bool list" where
  "order_23_div_47 =
    [b1, b0, b0, b0, b1, b1, b0, b0, b1, b0, b0, b1, b1, b1, b0, b1, b0, b1]"

definition order_23_div_178481 :: "bool list" where
  "order_23_div_178481 =
    [b1, b1, b1, b1, b0, b1]"

definition order_22 :: "bool list" where
  "order_22 =
    [b1, b1, b1, b1, b1, b1, b1, b1, b1, b1, b1, b1, b1, b1, b1, b1, b1, b1, b1, b1, b1, b1]"

definition order_22_div_3 :: "bool list" where
  "order_22_div_3 =
    [b1, b0, b1, b0, b1, b0, b1, b0, b1, b0, b1, b0, b1, b0, b1, b0, b1, b0, b1, b0, b1]"

definition order_22_div_23 :: "bool list" where
  "order_22_div_23 =
    [b1, b0, b0, b1, b1, b0, b1, b0, b0, b0, b0, b1, b0, b0, b1, b1, b0, b1]"

definition order_22_div_89 :: "bool list" where
  "order_22_div_89 =
    [b1, b1, b1, b0, b1, b0, b0, b0, b0, b0, b0, b1, b1, b1, b0, b1]"

definition order_22_div_683 :: "bool list" where
  "order_22_div_683 =
    [b1, b0, b1, b1, b1, b1, b1, b1, b1, b1, b1, b0, b1]"

definition order_64 :: "bool list" where
  "order_64 =
    [b1, b1, b1, b1, b1, b1, b1, b1, b1, b1, b1, b1, b1, b1, b1, b1, b1, b1, b1, b1, b1, b1,
     b1, b1, b1, b1, b1, b1, b1, b1, b1, b1, b1, b1, b1, b1, b1, b1, b1, b1, b1, b1, b1, b1,
     b1, b1, b1, b1, b1, b1, b1, b1, b1, b1, b1, b1, b1, b1, b1, b1, b1, b1, b1, b1]"

definition order_64_div_257 :: "bool list" where
  "order_64_div_257 =
    [b1, b1, b1, b1, b1, b1, b1, b1, b0, b0, b0, b0, b0, b0, b0, b0, b1, b1, b1, b1, b1, b1,
     b1, b1, b0, b0, b0, b0, b0, b0, b0, b0, b1, b1, b1, b1, b1, b1, b1, b1, b0, b0, b0, b0,
     b0, b0, b0, b0, b1, b1, b1, b1, b1, b1, b1, b1]"

definition order_64_div_65537 :: "bool list" where
  "order_64_div_65537 =
    [b1, b1, b1, b1, b1, b1, b1, b1, b1, b1, b1, b1, b1, b1, b1, b1, b0, b0, b0, b0, b0, b0,
     b0, b0, b0, b0, b0, b0, b0, b0, b0, b0, b1, b1, b1, b1, b1, b1, b1, b1, b1, b1, b1, b1,
     b1, b1, b1, b1]"

definition taps_serato_2a :: "bool list" where
  "taps_serato_2a =
    [b1, b0, b1, b0, b0, b1, b1, b1, b1, b0, b0, b0, b0, b1, b1, b0, b1, b1, b0, b0]"

definition factor_serato_2a :: "bool list" where
  "factor_serato_2a =
    [b1, b0, b1, b0, b0, b1, b1, b1, b1, b0, b0, b0, b0, b1, b1, b0, b1, b1, b0, b0]"

definition cofactor_serato_2a :: "bool list" where
  "cofactor_serato_2a =
    [b1]"

definition seed_serato_2a :: "bool list" where
  "seed_serato_2a =
    [b1, b1, b1, b0, b1, b0, b0, b0, b0, b0, b0, b0, b1, b0, b0, b1, b1, b0, b1, b0]"

definition image_serato_2a :: "bool list" where
  "image_serato_2a =
    [b1, b1, b1, b0, b1, b0, b0, b0, b0, b0, b0, b0, b1, b0, b0, b1, b1, b0, b1, b0]"

definition taps_serato_2b :: "bool list" where
  "taps_serato_2b =
    [b1, b0, b0, b1, b1, b0, b1, b1, b0, b0, b0, b0, b1, b1, b1, b1, b0, b0, b1, b0]"

definition factor_serato_2b :: "bool list" where
  "factor_serato_2b =
    [b1, b0, b0, b1, b1, b0, b1, b1, b0, b0, b0, b0, b1, b1, b1, b1, b0, b0, b1, b0]"

definition cofactor_serato_2b :: "bool list" where
  "cofactor_serato_2b =
    [b1]"

definition seed_serato_2b :: "bool list" where
  "seed_serato_2b =
    [b0, b1, b1, b0, b0, b0, b1, b1, b1, b1, b0, b0, b1, b1, b1, b1, b0, b0, b0, b1]"

definition image_serato_2b :: "bool list" where
  "image_serato_2b =
    [b0, b1, b1, b0, b0, b0, b1, b1, b1, b1, b0, b0, b1, b1, b1, b1, b0, b0, b0, b1]"

definition taps_serato_cd :: "bool list" where
  "taps_serato_cd =
    [b1, b0, b1, b0, b1, b0, b1, b0, b1, b0, b1, b1, b0, b0, b1, b0, b1, b1, b0, b0]"

definition factor_serato_cd :: "bool list" where
  "factor_serato_cd =
    [b1, b0, b1, b0, b1, b0, b1, b0, b1, b0, b1, b1, b0, b0, b1, b0, b1, b1, b0, b0]"

definition cofactor_serato_cd :: "bool list" where
  "cofactor_serato_cd =
    [b1]"

definition seed_serato_cd :: "bool list" where
  "seed_serato_cd =
    [b0, b0, b0, b0, b0, b0, b1, b0, b1, b1, b0, b1, b0, b0, b0, b1, b1, b0, b1, b1]"

definition image_serato_cd :: "bool list" where
  "image_serato_cd =
    [b0, b0, b0, b0, b0, b0, b1, b0, b1, b1, b0, b1, b0, b0, b0, b1, b1, b0, b1, b1]"

definition taps_traktor :: "bool list" where
  "taps_traktor =
    [b1, b0, b0, b0, b0, b0, b1, b0, b0, b0, b0, b0, b1, b0, b0, b0, b0, b0, b1, b0, b0, b0,
     b0]"

definition factor_traktor :: "bool list" where
  "factor_traktor =
    [b1, b0, b0, b0, b0, b0, b1, b0, b0, b0, b0, b0, b1, b0, b0, b0, b0, b0, b1, b0, b0, b0,
     b0]"

definition cofactor_traktor :: "bool list" where
  "cofactor_traktor =
    [b1]"

definition seed_traktor_a :: "bool list" where
  "seed_traktor_a =
    [b1, b1, b0, b0, b0, b0, b0, b0, b1, b0, b1, b0, b0, b0, b1, b0, b1, b1, b0, b0, b1, b0,
     b0]"

definition image_traktor_a :: "bool list" where
  "image_traktor_a =
    [b1, b1, b0, b0, b0, b0, b0, b0, b1, b0, b1, b0, b0, b0, b1, b0, b1, b1, b0, b0, b1, b0,
     b0]"

definition seed_traktor_b :: "bool list" where
  "seed_traktor_b =
    [b0, b0, b1, b1, b0, b1, b1, b0, b0, b1, b1, b0, b0, b0, b0, b0, b0, b1, b0, b0, b1, b1,
     b0]"

definition image_traktor_b :: "bool list" where
  "image_traktor_b =
    [b0, b0, b1, b1, b0, b1, b1, b0, b0, b1, b1, b0, b0, b0, b0, b0, b0, b1, b0, b0, b1, b1,
     b0]"

definition taps_traktor_mk2 :: "bool list" where
  "taps_traktor_mk2 =
    [b1, b0, b0, b0, b0, b0, b0, b0, b0, b0, b0, b0, b0, b0, b0, b0, b0, b0, b0, b0, b0, b0,
     b0, b0, b0, b0, b0, b0, b0, b0, b0, b0, b0, b0, b0, b1, b0, b0, b0, b0, b1, b0, b0, b0,
     b0, b0, b0, b0, b0, b0, b0, b0, b0, b0, b0, b0, b0, b0, b0, b0, b0, b0, b0, b0, b0, b0,
     b0, b0, b0, b0, b1, b0, b0, b0, b0, b0, b0, b0, b0, b0, b0, b0, b0, b0, b0, b0, b0, b0,
     b0, b0, b0, b0, b0, b0, b0, b0, b0, b0, b0, b0, b0, b0, b0, b0, b0, b0, b0, b0, b0, b0]"

definition factor_traktor_mk2 :: "bool list" where
  "factor_traktor_mk2 =
    [b1, b1, b0, b0, b0, b1, b1, b0, b1, b0, b0, b0, b0, b0, b1, b1, b1, b1, b1, b1, b1, b0]"

definition cofactor_traktor_mk2 :: "bool list" where
  "cofactor_traktor_mk2 =
    [b1, b1, b1, b1, b1, b0, b0, b0, b1, b0, b0, b1, b0, b1, b1, b1, b0, b1, b1, b1, b0, b0,
     b1, b0, b1, b0, b0, b1, b0, b1, b0, b1, b0, b0, b0, b0, b0, b1, b1, b0, b0, b0, b0, b1,
     b0, b0, b1, b0, b1, b1, b0, b1, b0, b0, b1, b0, b0, b1, b1, b1, b1, b1, b0, b0, b1, b1,
     b0, b1, b1, b0, b0, b1, b0, b0, b0, b0, b0, b0, b1, b0, b1, b0, b1, b1, b0, b1, b1, b0,
     b1]"

definition seed_traktor_mk2_a :: "bool list" where
  "seed_traktor_mk2_a =
    [b1, b0, b0, b1, b1, b1, b1, b1, b0, b0, b0, b0, b0, b1, b1, b1, b1, b1, b0, b0, b0, b0,
     b0, b1, b1, b1, b1, b1, b0, b0, b0, b1, b1, b1, b1, b1, b1, b1, b0, b0, b0, b1, b1, b0,
     b0, b0, b0, b0, b0, b0, b0, b0, b0, b1, b1, b1, b1, b1, b1, b1, b1, b1, b1, b0, b0, b0,
     b1, b1, b0, b0, b0, b1, b1, b0, b0, b0, b1, b1, b1, b1, b1, b0, b0, b1, b1, b1, b0, b0,
     b1, b1, b1, b1, b1, b0, b0, b0, b0, b0, b1, b1, b1, b0, b0, b1, b1, b1, b0, b0, b1, b1]"

definition image_traktor_mk2_a :: "bool list" where
  "image_traktor_mk2_a =
    [b0, b1, b1, b1, b0, b1, b1, b0, b1, b1, b1, b0, b0, b1, b0, b0, b1, b1, b1, b1, b1, b0,
     b1, b1, b0, b1, b0, b1, b1, b0, b1, b1, b1, b0, b1, b0, b0, b1, b1, b1, b1, b0, b0, b0,
     b1, b1, b1, b1, b0, b1, b0, b0, b0, b0, b1, b1, b1, b0, b1, b0, b0, b1, b1, b1, b1, b0,
     b0, b0, b1, b0, b1, b0, b0, b1, b1, b0, b1, b1, b0, b1, b1, b0, b1, b0, b1, b1, b0, b1,
     b1, b0, b1, b1, b1, b0, b0, b0, b0, b1, b1, b0, b1, b1, b0, b0, b0, b1, b1, b0, b1, b0]"

definition seed_traktor_mk2_b :: "bool list" where
  "seed_traktor_mk2_b =
    [b0, b0, b0, b0, b0, b0, b1, b1, b1, b1, b1, b0, b0, b0, b0, b0, b0, b0, b0, b1, b1, b1,
     b1, b1, b0, b0, b1, b1, b1, b1, b1, b1, b1, b1, b1, b1, b1, b1, b1, b0, b0, b1, b1, b1,
     b0, b0, b0, b0, b0, b0, b0, b0, b0, b0, b1, b1, b0, b0, b0, b1, b1, b1, b1, b1, b0, b0,
     b1, b1, b1, b1, b1, b0, b0, b0, b0, b0, b1, b1, b1, b0, b0, b0, b0, b0, b0, b0, b1, b1,
     b1, b1, b1, b1, b1, b1, b0, b0, b1, b1, b1, b0, b0, b1, b1, b1, b0, b0, b0, b0, b0, b1]"

definition image_traktor_mk2_b :: "bool list" where
  "image_traktor_mk2_b =
    [b0, b1, b1, b0, b1, b0, b0, b0, b1, b1, b0, b0, b0, b0, b0, b0, b1, b0, b1, b0, b0, b0,
     b0, b1, b0, b1, b0, b0, b0, b1, b1, b0, b1, b0, b0, b0, b1, b1, b0, b0, b1, b1, b0, b1,
     b0, b0, b1, b1, b1, b1, b0, b0, b0, b1, b1, b1, b1, b0, b1, b0, b1, b1, b1, b1, b0, b0,
     b0, b0, b1, b1, b0, b0, b1, b1, b0, b0, b0, b0, b1, b1, b1, b0, b0, b0, b0, b0, b1, b1,
     b1, b1, b0, b1, b1, b1, b0, b1, b1, b0, b1, b0, b0, b1, b0, b1, b1, b0, b0, b0, b1, b0]"

definition taps_traktor_mk2_cd :: "bool list" where
  "taps_traktor_mk2_cd =
    [b1, b0, b0, b0, b0, b0, b0, b0, b0, b0, b0, b0, b0, b0, b0, b0, b0, b0, b0, b0, b0, b0,
     b0, b0, b0, b0, b0, b0, b0, b0, b0, b0, b0, b0, b0, b1, b0, b0, b0, b0, b1, b0, b0, b0,
     b0, b0, b0, b0, b0, b0, b0, b0, b0, b0, b0, b0, b0, b0, b0, b0, b1, b0, b0, b0, b0, b0,
     b0, b0, b0, b0, b0, b0, b0, b0, b0, b0, b0, b0, b0, b0, b0, b0, b0, b0, b0, b0, b0, b0,
     b0, b0, b0, b0, b0, b0, b0, b0, b0, b0, b0, b0, b0, b0, b0, b0, b0, b0, b0, b0, b0, b0,
     b1, b0, b0]"

definition factor_traktor_mk2_cd :: "bool list" where
  "factor_traktor_mk2_cd =
    [b1, b1, b1, b0, b1, b1, b0, b0, b1, b0, b0, b1, b1, b1, b1, b1, b0, b1, b1, b1, b1, b0,
     b0, b1, b1, b0, b0, b1, b0, b1, b0, b1, b1, b0, b0, b0, b1, b1, b0, b0, b1, b1, b0, b0,
     b0, b0, b1, b0, b1, b1, b1, b0, b1, b0, b1, b0, b1, b0, b0, b1, b1, b1, b1, b0]"

definition cofactor_traktor_mk2_cd :: "bool list" where
  "cofactor_traktor_mk2_cd =
    [b1, b1, b0, b1, b0, b1, b0, b0, b0, b0, b1, b1, b0, b0, b0, b1, b1, b1, b1, b1, b0, b0,
     b0, b0, b1, b0, b1, b1, b0, b0, b0, b0, b0, b0, b1, b0, b0, b1, b0, b0, b0, b0, b1, b1,
     b0, b0, b0, b1, b0, b1]"

definition seed_traktor_mk2_cd :: "bool list" where
  "seed_traktor_mk2_cd =
    [b1, b1, b0, b0, b0, b1, b1, b1, b1, b1, b0, b0, b1, b1, b1, b1, b1, b1, b1, b1, b0, b0,
     b1, b1, b1, b0, b0, b1, b1, b1, b1, b1, b1, b1, b1, b1, b1, b0, b0, b0, b0, b0, b1, b1,
     b1, b0, b0, b1, b1, b1, b1, b1, b1, b1, b1, b0, b0, b1, b1, b1, b1, b1, b1, b1, b1, b0,
     b0, b1, b1, b1, b1, b1, b1, b1, b1, b1, b1, b0, b0, b0, b1, b1, b1, b1, b1, b0, b0, b0,
     b0, b0, b0, b0, b1, b1, b1, b1, b1, b1, b1, b1, b1, b1, b1, b1, b1, b0, b0, b1, b1, b1,
     b1, b1, b1]"

definition image_traktor_mk2_cd :: "bool list" where
  "image_traktor_mk2_cd =
    [b1, b0, b1, b0, b0, b0, b1, b1, b1, b0, b1, b0, b0, b1, b1, b1, b0, b1, b1, b1, b1, b0,
     b1, b1, b1, b0, b0, b0, b1, b0, b1, b1, b0, b1, b0, b0, b0, b1, b0, b0, b1, b1, b0, b1,
     b0, b1, b1, b0, b1, b0, b1, b0, b1, b1, b1, b0, b0, b0, b1, b1, b0, b1, b0, b0, b1, b1,
     b1, b1, b1, b0, b1, b0, b1, b1, b0, b0, b0, b0, b0, b0, b0, b1, b1, b0, b1, b1, b0, b1,
     b1, b1, b1, b0, b0, b1, b0, b1, b1, b0, b0, b0, b0, b1, b1, b1, b1, b0, b0, b1, b1, b0,
     b1, b0, b1]"

definition taps_mixvibes :: "bool list" where
  "taps_mixvibes =
    [b1, b0, b0, b1, b0, b0, b0, b0, b0, b0, b0, b0, b0, b0, b0, b0, b0, b0, b0, b0]"

definition factor_mixvibes :: "bool list" where
  "factor_mixvibes =
    [b1, b0, b0, b1, b0, b0, b0, b0, b0, b0, b0, b0, b0, b0, b0, b0, b0, b0, b0, b0]"

definition cofactor_mixvibes :: "bool list" where
  "cofactor_mixvibes =
    [b1]"

definition seed_mixvibes :: "bool list" where
  "seed_mixvibes =
    [b0, b0, b0, b0, b1, b0, b0, b1, b0, b0, b1, b1, b0, b1, b0, b0, b0, b1, b0, b0]"

definition image_mixvibes :: "bool list" where
  "image_mixvibes =
    [b0, b0, b0, b0, b1, b0, b0, b1, b0, b0, b1, b1, b0, b1, b0, b0, b0, b1, b0, b0]"

definition taps_pioneer_a :: "bool list" where
  "taps_pioneer_a =
    [b1, b1, b0, b1, b1, b1, b0, b0, b1, b1, b0, b0, b1, b0, b0, b1, b1, b1, b1, b0]"

definition factor_pioneer_a :: "bool list" where
  "factor_pioneer_a =
    [b1, b1, b0, b1, b1, b1, b0, b0, b1, b1, b0, b0, b1, b0, b0, b1, b1, b1, b1, b0]"

definition cofactor_pioneer_a :: "bool list" where
  "cofactor_pioneer_a =
    [b1]"

definition seed_pioneer_a :: "bool list" where
  "seed_pioneer_a =
    [b0, b0, b0, b0, b1, b1, b1, b0, b1, b1, b0, b0, b0, b0, b0, b1, b1, b1, b1, b0]"

definition image_pioneer_a :: "bool list" where
  "image_pioneer_a =
    [b0, b0, b0, b0, b1, b1, b1, b0, b1, b1, b0, b0, b0, b0, b0, b1, b1, b1, b1, b0]"

definition taps_pioneer_b :: "bool list" where
  "taps_pioneer_b =
    [b1, b0, b1, b1, b1, b0, b0, b0, b1, b1, b1, b1, b0, b1, b1, b1, b0, b1, b0, b0]"

definition factor_pioneer_b :: "bool list" where
  "factor_pioneer_b =
    [b1, b0, b1, b1, b1, b0, b0, b0, b1, b1, b1, b1, b0, b1, b1, b1, b0, b1, b0, b0]"

definition cofactor_pioneer_b :: "bool list" where
  "cofactor_pioneer_b =
    [b1]"

definition seed_pioneer_b :: "bool list" where
  "seed_pioneer_b =
    [b0, b1, b0, b0, b1, b0, b0, b0, b0, b0, b0, b0, b1, b1, b1, b0, b1, b1, b1, b1]"

definition image_pioneer_b :: "bool list" where
  "image_pioneer_b =
    [b0, b1, b0, b0, b1, b0, b0, b0, b0, b0, b0, b0, b1, b1, b1, b0, b1, b1, b1, b1]"

section \<open>Properties of the LFSR primitives\<close>

lemma pc_step: "pc w = of_bool (bit w 0) + pc (drop_bit 1 w)"
proof -
  have "pc w = of_bool (bit w 0) + (\<Sum>i<127. of_bool (bit w (Suc i)))"
    unfolding pc_def by (subst sum.lessThan_Suc_shift[of _ 127, simplified]) simp
  moreover have "pc (drop_bit 1 w) = (\<Sum>i<127. of_bool (bit w (Suc i)))"
  proof -
    have "pc (drop_bit 1 w) = (\<Sum>i<Suc 127. of_bool (bit w (Suc i)))"
      unfolding pc_def by (simp add: bit_simps del: sum.lessThan_Suc)
    also have "\<dots> = (\<Sum>i<127. of_bool (bit w (Suc i))) + of_bool (bit w (Suc 127))"
      by (simp only: sum.lessThan_Suc)
    also have "bit w (Suc 127) = False" by (auto dest: bit_imp_le_length)
    finally show ?thesis by simp
  qed
  ultimately show ?thesis by simp
qed

lemma pc_0: "pc 0 = 0"
  by (simp add: pc_def)

lemma lfsr_loop_pc: "lfsr_loop taken xrs = xrs + of_nat (pc taken)"
proof (induction taken xrs rule: lfsr_loop.induct)
  case (1 taken xrs)
  show ?case
  proof (cases "taken = 0")
    case True
    then show ?thesis by (simp add: lfsr_loop.simps pc_0)
  next
    case False
    have b: "(ucast (taken AND 1) :: 32 word) = of_bool (bit taken 0)"
      by (simp add: and_one_eq mod_2_eq_odd bit_0)
    from False have "lfsr_loop taken xrs = lfsr_loop (drop_bit 1 taken) (xrs + ucast (taken AND 1))"
      by (subst lfsr_loop.simps) simp
    also have "\<dots> = xrs + ucast (taken AND 1) + of_nat (pc (drop_bit 1 taken))"
      using 1 False by simp
    also have "\<dots> = xrs + of_nat (pc taken)"
      by (subst (2) pc_step) (simp add: b)
    finally show ?thesis .
  qed
qed

lemma lfsr_par: "lfsr code tps = of_bool (par (code AND tps))"
proof -
  have "(of_nat n :: 32 word) AND 1 = of_bool (odd n)" for n
    by (simp add: and_one_eq mod_2_eq_odd word_of_nat_eq_0_iff)
  then show ?thesis by (simp add: lfsr_def lfsr_loop_pc par_def)
qed

lemma pc_xor: "pc (a XOR b) + 2 * pc (a AND b) = pc a + pc b"
  unfolding pc_def sum_distrib_left sum.distrib [symmetric]
  by (rule sum.cong) (auto simp: bit_simps)

lemma par_xor: "par (a XOR b) = (par a \<noteq> par b)"
  using pc_xor [of a b] unfolding par_def by presburger

lemma par_drop1: "par w = (bit w 0 \<noteq> par (drop_bit 1 w))"
  unfolding par_def by (subst pc_step) simp

lemma par_push_bit_bool: "k < 128 \<Longrightarrow> par (push_bit k (of_bool c)) = c"
proof -
  assume k: "k < 128"
  have "pc (push_bit k (of_bool c)) = (\<Sum>i<128. if i = k then of_bool c else 0)"
    unfolding pc_def by (rule sum.cong) (auto simp: bit_simps)
  also have "\<dots> = of_bool c" using k by simp
  finally show ?thesis by (simp add: par_def)
qed

lemma mask_bit: "bit (2 ^ b - 1 :: bits_t) n \<longleftrightarrow> n < b \<and> n < 128"
proof -
  have "(2 ^ b - 1 :: bits_t) = mask b" by (simp add: mask_eq_exp_minus_1)
  then show ?thesis by (auto simp: bit_simps)
qed

lemma small_bit: "x < 2 ^ b \<Longrightarrow> b \<le> n \<Longrightarrow> \<not> bit (x :: bits_t) n"
  by (metis bit_take_bit_iff less_mask_eq not_le take_bit_eq_mask)

lemma bit_fwd:
  "bit (fwd x d) n \<longleftrightarrow> bit x (Suc n) \<or> (n = bits d - 1 \<and> n < 128 \<and> par (x AND (taps d OR 1)))"
proof -
  have "bit (fwd x d) n \<longleftrightarrow>
      bit (drop_bit 1 x) n \<or> bit (push_bit (bits d - 1) (of_bool (par (x AND (taps d OR 1))) :: bits_t)) n"
    by (simp only: fwd_def lfsr_par Let_def bit_or_iff)
  also have "bit (drop_bit 1 x) n = bit x (Suc n)"
    by (simp add: bit_drop_bit_eq)
  also have "bit (push_bit (bits d - 1) (of_bool (par (x AND (taps d OR 1))) :: bits_t)) n
      \<longleftrightarrow> n = bits d - 1 \<and> n < 128 \<and> par (x AND (taps d OR 1))"
    by (auto simp: bit_push_bit_iff bit_of_bool_iff)
  finally show ?thesis .
qed

lemma bit_rev:
  "bit (rev_tc y d) n \<longleftrightarrow>
     (if n = 0 then par (y AND (drop_bit 1 (taps d) OR push_bit (bits d - 1) 1))
      else n < bits d \<and> n < 128 \<and> bit y (n - 1))"
proof -
  have "bit (rev_tc y d) n \<longleftrightarrow>
      (bit (push_bit 1 y) n \<and> bit (push_bit (bits d) (1::bits_t) - 1) n)
       \<or> bit (of_bool (par (y AND (drop_bit 1 (taps d) OR push_bit (bits d - 1) 1))) :: bits_t) n"
    by (simp only: rev_tc_def lfsr_par Let_def bit_or_iff bit_and_iff)
  also have "bit (push_bit 1 y) n \<longleftrightarrow> 0 < n \<and> n < 128 \<and> bit y (n - 1)"
    by (simp only: bit_push_bit_iff) (auto simp: possible_bit_word)
  finally show ?thesis
    by (auto simp: mask_bit bit_of_bool_iff)
qed

lemma tap_split:
  fixes X T :: bits_t
  assumes "\<not> bit X k" "k < 128"
  shows "par ((X OR push_bit k (of_bool c)) AND (T OR push_bit k 1)) = (par (X AND T) \<noteq> c)"
proof -
  have "(X OR push_bit k (of_bool c)) AND (T OR push_bit k 1) = (X AND T) XOR push_bit k (of_bool c)"
    by (rule bit_word_eqI) (use assms in \<open>auto simp: bit_simps\<close>)
  then show ?thesis
    using assms(2) by (simp only: par_xor par_push_bit_bool)
qed

lemma rev_fwd:
  fixes x :: bits_t
  assumes b: "0 < bits d" "bits d < 128" and x: "x < 2 ^ bits d"
  shows "rev_tc (fwd x d) d = x"
proof -
  define k where "k = bits d - 1"
  have k: "k < 128" "bits d = Suc k" using b by (simp_all add: k_def)
  define X where "X = drop_bit 1 x"
  define T where "T = drop_bit 1 (taps d)"
  define lb where "lb = par (x AND (taps d OR 1))"
  have Xk: "\<not> bit X k"
    using small_bit [OF x, of "Suc k"] k by (simp add: X_def bit_simps)
  have lb: "lb = (bit x 0 \<noteq> par (X AND T))"
    unfolding lb_def X_def T_def
    by (subst par_drop1) (simp add: bit_simps bit_0 even_and_iff even_or_iff)
  have y: "fwd x d = X OR push_bit k (of_bool lb)"
    by (simp add: fwd_def lfsr_par X_def k_def lb_def)
  have "par (fwd x d AND (T OR push_bit k 1)) = (par (X AND T) \<noteq> lb)"
    unfolding y using Xk k(1) by (rule tap_split)
  then have l': "par (fwd x d AND (drop_bit 1 (taps d) OR push_bit (bits d - 1) 1)) = bit x 0"
    using lb by (auto simp: T_def k_def)
  show ?thesis
  proof (rule bit_word_eqI)
    fix n assume "n < LENGTH(128)"
    show "bit (rev_tc (fwd x d) d) n = bit x n"
    proof (cases n)
      case 0
      then show ?thesis using l' by (simp add: bit_rev)
    next
      case (Suc m)
      show ?thesis
      proof (cases "m < k")
        case True
        then show ?thesis using Suc k \<open>n < LENGTH(128)\<close> by (auto simp: bit_rev bit_fwd)
      next
        case False
        then have "\<not> bit x n" using small_bit [OF x, of n] Suc k by simp
        with False show ?thesis using Suc k by (auto simp: bit_rev)
      qed
    qed
  qed
qed

lemma fwd_rev:
  fixes x :: bits_t
  assumes b: "0 < bits d" "bits d < 128" and x: "x < 2 ^ bits d"
  shows "fwd (rev_tc x d) d = x"
proof -
  define k where "k = bits d - 1"
  have k: "k < 128" "bits d = Suc k" using b by (simp_all add: k_def)
  define X where "X = take_bit k x"
  define T where "T = drop_bit 1 (taps d)"
  define l where "l = par (x AND (T OR push_bit k 1))"
  define z where "z = rev_tc x d"
  have xs: "x = X OR push_bit k (of_bool (bit x k))"
  proof (rule bit_word_eqI)
    fix n assume "n < LENGTH(128)"
    show "bit x n = bit (X OR push_bit k (of_bool (bit x k))) n"
      using small_bit [OF x, of n] k
      by (cases "n < k"; cases "n = k") (auto simp: X_def bit_simps)
  qed
  have "\<not> bit X k" by (simp add: X_def bit_simps)
  then have "par ((X OR push_bit k (of_bool (bit x k))) AND (T OR push_bit k 1)) = (par (X AND T) \<noteq> bit x k)"
    using k(1) by (rule tap_split)
  then have l: "l = (par (X AND T) \<noteq> bit x k)"
    unfolding l_def using xs by simp
  have z0: "bit z 0 = l"
    by (simp add: z_def bit_rev l_def T_def k_def)
  have dz: "drop_bit 1 z = X"
  proof (rule bit_word_eqI)
    fix n assume "n < LENGTH(128)"
    then show "bit (drop_bit 1 z) n = bit X n"
      using k by (auto simp: bit_drop_bit_eq z_def bit_rev X_def bit_simps)
  qed
  have "drop_bit 1 (z AND (taps d OR 1)) = drop_bit 1 z AND T"
    by (rule bit_word_eqI) (auto simp: T_def bit_simps)
  moreover have "bit (z AND (taps d OR 1)) 0 = l"
    by (simp only: bit_and_iff bit_or_iff z0) simp
  ultimately have "par (z AND (taps d OR 1)) = (l \<noteq> par (X AND T))"
    using par_drop1 [of "z AND (taps d OR 1)"] by (simp only: dz)
  then have m: "par (z AND (taps d OR 1)) = bit x k"
    using l by auto
  show ?thesis
  proof (rule bit_word_eqI)
    fix n assume "n < LENGTH(128)"
    have "bit (fwd z d) n \<longleftrightarrow> bit X n \<or> (n = k \<and> bit x k)"
      unfolding bit_fwd m using k by (auto simp flip: dz simp: bit_drop_bit_eq)
    also have "\<dots> = bit x n"
      using small_bit [OF x, of n] k
      by (cases "n < k"; cases "n = k") (auto simp: X_def bit_simps)
    finally show "bit (fwd (rev_tc x d) d) n = bit x n" by (simp add: z_def)
  qed
qed


lemma fwd_bound:
  fixes x :: bits_t
  assumes b: "0 < bits d" "bits d < 128" and x: "x < 2 ^ bits d"
  shows "fwd x d < 2 ^ bits d"
proof -
  have "take_bit (bits d) (fwd x d) = fwd x d"
  proof (rule bit_word_eqI)
    fix n assume "n < LENGTH(128)"
    show "bit (take_bit (bits d) (fwd x d)) n = bit (fwd x d) n"
    proof (cases "bits d \<le> Suc n")
      case True
      then have "\<not> bit x (Suc n)" by (rule small_bit [OF x])
      then show ?thesis using b by (auto simp: bit_take_bit_iff bit_fwd)
    next
      case False
      then show ?thesis by (simp add: bit_take_bit_iff)
    qed
  qed
  then have "fwd x d AND mask (bits d) = fwd x d"
    by (simp add: take_bit_eq_mask)
  then show ?thesis
    using and_mask_less_size [of "bits d" "fwd x d"] b by (simp add: word_size)
qed

lemma catalog_widths:
  "d \<in> set timecodes \<Longrightarrow> 0 < bits d \<and> bits d < 128 \<and> seed d < 2 ^ bits d"
  unfolding timecodes_def by (auto simp: UINT128_def)

lemma reachable_state_bound:
  assumes "d \<in> set timecodes" "reachable_state d x"
  shows "x < 2 ^ bits d"
  using assms(2)
proof (induction rule: reachable_state.induct)
  case at_seed
  then show ?case using catalog_widths [OF assms(1)] by simp
next
  case (after_fwd x)
  then show ?case using catalog_widths [OF assms(1)] by (simp add: fwd_bound)
qed

text \<open>
  Claim C2. For every timecode definition of the catalog and every register value on the
  sequence generated from its seed, one step forward followed by one step in reverse
  gives the value back, and so does one step in reverse followed by one step forward.
\<close>

theorem lfsr_steps_inverse:
  assumes "d \<in> set timecodes" "reachable_state d x"
  shows "rev_tc (fwd x d) d = x \<and> fwd (rev_tc x d) d = x"
  using catalog_widths [OF assms(1)] reachable_state_bound [OF assms]
  by (simp add: rev_fwd fwd_rev)

theorem lfsr_steps_inverse_witness:
  "timecodes ! 3 \<in> set timecodes \<and> reachable_state (timecodes ! 3) 0x134503
   \<and> rev_tc (fwd 0x134503 (timecodes ! 3)) (timecodes ! 3) = 0x134503
   \<and> fwd (rev_tc 0x134503 (timecodes ! 3)) (timecodes ! 3) = 0x134503"
proof -
  have m: "timecodes ! 3 \<in> set timecodes"
    by (simp add: timecodes_def)
  have "seed (timecodes ! 3) = 0x134503"
    by (simp add: timecodes_def)
  then have r: "reachable_state (timecodes ! 3) 0x134503"
    using at_seed [of "timecodes ! 3"] by simp
  show ?thesis
    using m r lfsr_steps_inverse [OF m r] by simp
qed

section \<open>The catalog\<close>

text \<open>
  Claim C4, as stated: the catalog has exactly 13 formats. It has 12.
\<close>

theorem catalog_size_counterexample: "\<not> length timecodes = 13"
  by (simp add: timecodes_def)

text \<open>
  Claim C4, amended. The catalog has exactly 12 formats, with distinct names, and their
  names, resolution, bits, seed, taps, length, safe and flags are the values listed here
  (a 128-bit seed or tap mask as one number, the flags as their bit mask). The search by
  name finds serato_2a at the first entry.
\<close>

theorem catalog_contents:
  "length timecodes = 12 \<and> distinct (map name timecodes) \<and>
   map (\<lambda>d. (name d, resolution d, bits d, seed d, taps d, length_tc d, safe d, flags d)) timecodes =
    [(''serato_2a'', 1000, 20, 0x59017, 0x361e4, 712000, 707000, 0),
     (''serato_2b'', 1000, 20, 0x8f3c6, 0x4f0d8, 922000, 917000, 0),
     (''serato_cd'', 1000, 20, 0xd8b40, 0x34d54, 950000, 940000, 0),
     (''traktor_a'', 2000, 23, 0x134503, 0x41040, 1500000, 1480000, 7),
     (''traktor_b'', 2000, 23, 0x32066c, 0x41040, 2110000, 2090000, 7),
     (''traktor_mk2_a'', 2500, 110, 0x339c1f39f18c7fe0063f8f83e0f9, 0x4000000000400000010800000001, 1620000, 1600000, 8),
     (''traktor_mk2_b'', 2500, 110, 0x20e73fc0707cf8c00e7ffcf807c0, 0x4000000000400000010800000001, 2295000, 2285000, 8),
     (''traktor_mk2_cd'', 3000, 113, 0x1f9fff01f1ff9fe7f9c1ff9cff3e3, 0x4000000000001000010800000001, 4950000, 4940000, 8),
     (''mixvibes_v2'', 1300, 20, 0x22c90, 0x8, 950000, 923000, 1),
     (''mixvibes_7inch'', 1300, 20, 0x22c90, 0x8, 312000, 310000, 1),
     (''pioneer_a'', 1000, 20, 0x78370, 0x7933a, 635000, 614000, 4),
     (''pioneer_b'', 1000, 20, 0xf7012, 0x2ef1c, 918500, 913000, 4)]
   \<and> find_name timecodes ''serato_2a'' 0 = Some 0"
  by (simp add: timecodes_def UINT128_def SWITCH_PHASE_def SWITCH_PRIMARY_def
      SWITCH_POLARITY_def OFFSET_MODULATION_def)


section \<open>Zero-crossing detection\<close>

lemma sint32_of_int: "- (2 ^ 31) \<le> k \<Longrightarrow> k < 2 ^ 31 \<Longrightarrow> sint (word_of_int k :: int32) = k"
  by (simp add: sint_sbintrunc' signed_take_bit_int_eq_self)

lemma sint32_range: "- (2 ^ 31) \<le> sint (a :: int32) \<and> sint a < 2 ^ 31"
  using sint_ge [of a] sint_lt [of a] by simp

lemma sint32_sub:
  "- (2 ^ 31) \<le> sint a - sint b \<Longrightarrow> sint a - sint b < 2 ^ 31 \<Longrightarrow> sint (a - b :: int32) = sint a - sint b"
  by (simp add: sint_word_ariths signed_take_bit_int_eq_self)

lemma sint32_add:
  "- (2 ^ 31) \<le> sint a + sint b \<Longrightarrow> sint a + sint b < 2 ^ 31 \<Longrightarrow> sint (a + b :: int32) = sint a + sint b"
  by (simp add: sint_word_ariths signed_take_bit_int_eq_self)

text \<open>
  What \<^const>\<open>detect_zero_crossing\<close> computes, for every channel state and sample: the
  two comparisons are those of \<^verbatim>\<open>int\<close> on the 32-bit sums \<^verbatim>\<open>ch->zero + threshold\<close> and
  \<^verbatim>\<open>ch->zero - threshold\<close>, and the low-pass update is computed from the old \<open>zero\<close>
  and the 32-bit difference \<^verbatim>\<open>v - ch->zero\<close>.
\<close>

lemma detect_zero_crossing_wrapped:
  "detect_zero_crossing K ch v alpha thr =
     (let up = (zero ch + thr <s v \<and> \<not> positive ch);
          down = (v <s zero ch - thr \<and> positive ch)
      in \<lparr> positive = (if up then True else if down then False else positive ch),
           swapped = (up \<or> down),
           zero = zero_filter K alpha (zero ch) (v - zero ch),
           crossing_ticker = (if up \<or> down then 0 else crossing_ticker ch + 1) \<rparr>)"
  by (cases ch) (auto simp: detect_zero_crossing_def Let_def)

text \<open>
  Where the sum and the difference of \<open>zero\<close> and the threshold are in the range of
  \<^verbatim>\<open>int\<close>, the crossings are reported exactly when \<open>v > zero + threshold\<close> on a
  channel that is not positive, and otherwise exactly when \<open>v < zero - threshold\<close> on a
  positive channel, the sums being those of the integers.
\<close>

lemma detect_zero_crossing_in_range:
  assumes "- (2 ^ 31) \<le> sint (zero ch) + sint thr" "sint (zero ch) + sint thr < 2 ^ 31"
    and "- (2 ^ 31) \<le> sint (zero ch) - sint thr" "sint (zero ch) - sint thr < 2 ^ 31"
  shows "detect_zero_crossing K ch v alpha thr =
     (let up = (sint (zero ch) + sint thr < sint v \<and> \<not> positive ch);
          down = (sint v < sint (zero ch) - sint thr \<and> positive ch)
      in \<lparr> positive = (if up then True else if down then False else positive ch),
           swapped = (up \<or> down),
           zero = zero_filter K alpha (zero ch) (v - zero ch),
           crossing_ticker = (if up \<or> down then 0 else crossing_ticker ch + 1) \<rparr>)"
  unfolding detect_zero_crossing_wrapped
  by (simp only: word_sless_alt sint32_add [OF assms(1,2)] sint32_sub [OF assms(3,4)])

text \<open>
  Claim C8, at a channel that is not positive and whose \<open>zero\<close> is \<open>0x7fff0000\<close> (the
  largest sample, \<open>32767 << 16\<close>), with the threshold set by \<^const>\<open>timecoder_init\<close> and
  the sample \<open>v = 0\<close>. The sum \<open>zero + threshold\<close> is above the range of \<^verbatim>\<open>int\<close>;
  the comparison is made with the 32-bit sum, which is negative, and
  \<^const>\<open>detect_zero_crossing\<close> reports an upward crossing (positive, swapped, ticker
  0), although \<open>v > zero + threshold\<close> does not hold: \<open>0 < 2147418112 + 8388608\<close>.
\<close>

theorem zero_crossing_overflow:
  "detect_zero_crossing K
      \<lparr> positive = False, swapped = False, zero = 0x7fff0000, crossing_ticker = c \<rparr>
      0 alpha ZERO_THRESHOLD
     = \<lparr> positive = True, swapped = True,
         zero = zero_filter K alpha 0x7fff0000 (0 - 0x7fff0000), crossing_ticker = 0 \<rparr>
   \<and> sint (0 :: int32) < sint (0x7fff0000 :: int32) + sint ZERO_THRESHOLD
   \<and> sint (0x7fff0000 :: int32) = 2147418112 \<and> sint ZERO_THRESHOLD = 8388608"
  by (simp add: detect_zero_crossing_def ZERO_THRESHOLD_def word_sless_alt)

section \<open>Reading the position\<close>

text \<open>
  Claim C10. \<^const>\<open>timecoder_get_position\<close> returns the decoder as it was given, with
  every member unchanged, on both paths; the cell of the out-parameter keeps its content
  on the unknown path and, where there is a cell, receives the elapsed time on the known
  path.
\<close>

theorem get_position_observer:
  "timecoder_get_position K cat tc when =
     (tc,
      (if snd (snd (timecoder_get_position K cat tc when)) = - 1 then when
       else map_option (\<lambda>w. fp_elapsed K (timecode_ticker tc) (dt tc)) when),
      snd (snd (timecoder_get_position K cat tc when)))"
  by (auto simp: timecoder_get_position_def Let_def split: option.splits)

lemma lut_index_range: "lut_index l x n = Some p \<Longrightarrow> n \<le> p \<and> p < n + length l"
  by (induction l arbitrary: n) (fastforce split: if_splits)+

lemma lut_lookup_range: "lut_lookup l x = Some p \<Longrightarrow> p < length l"
  using lut_index_range [of l x 0 p] by (simp add: lut_lookup_def)

lemma position_as_int:
  assumes "p < 2 ^ 31"
  shows "(of_nat p :: int32) \<noteq> - 1" and "nat (sint (of_nat p :: int32)) = p"
proof -
  have "sint (of_nat p :: int32) = int p"
    using assms by (simp add: signed_of_nat signed_take_bit_int_eq_self)
  then show "nat (sint (of_nat p :: int32)) = p" by simp
  show "(of_nat p :: int32) \<noteq> - 1"
  proof
    assume "(of_nat p :: int32) = - 1"
    then have "sint (of_nat p :: int32) = - 1" by simp
    with \<open>sint (of_nat p :: int32) = int p\<close> show False by simp
  qed
qed

text \<open>
  Claim C3. With a table whose positions fit C's \<^verbatim>\<open>signed int\<close>,
  \<^const>\<open>timecoder_get_position\<close> returns \<open>-1\<close> (unknown) if and only if the valid
  counter is at most 24 or the bitstream is not in the table of the decoder's format;
  otherwise it returns the position of the bitstream in that table and, where an
  out-parameter is supplied, stores the elapsed time computed from the timecode ticker
  and \<open>dt\<close>.
\<close>

theorem get_position_spec:
  assumes "length (lut_of (cat ! def tc)) < 2 ^ 31"
  shows "let pos = lut_lookup (lut_of (cat ! def tc)) (bitstream tc);
             (tc', when', r) = timecoder_get_position K cat tc when
         in (r = - 1 \<longleftrightarrow> valid_counter tc \<le> 24 \<or> pos = None)
            \<and> (r \<noteq> - 1 \<longrightarrow> pos = Some (nat (sint r))
                  \<and> when' = map_option (\<lambda>w. fp_elapsed K (timecode_ticker tc) (dt tc)) when)"
proof (cases "lut_lookup (lut_of (cat ! def tc)) (bitstream tc)")
  case None
  then show ?thesis
    by (simp add: timecoder_get_position_def VALID_BITS_def Let_def)
next
  case (Some p)
  then have "p < 2 ^ 31" using lut_lookup_range [OF Some] assms by simp
  from position_as_int [OF this] Some show ?thesis
    by (auto simp: timecoder_get_position_def VALID_BITS_def Let_def split: option.splits)
qed

theorem get_position_spec_witness:
  "length (lut_of (sample_catalog ! def (blank_tc\<lparr> valid_counter := 25, bitstream := 7, timecode_ticker := 3, dt := 2 \<rparr>))) < 2 ^ 31
   \<and> timecoder_get_position sample_platform sample_catalog
        (blank_tc\<lparr> valid_counter := 25, bitstream := 7, timecode_ticker := 3, dt := 2 \<rparr>) (Some 0)
      = (blank_tc\<lparr> valid_counter := 25, bitstream := 7, timecode_ticker := 3, dt := 2 \<rparr>, Some 6, 1)"
  using get_position_spec [of sample_catalog "blank_tc\<lparr> valid_counter := 25, bitstream := 7, timecode_ticker := 3, dt := 2 \<rparr>" sample_platform "Some 0"]
  by (simp add: sample_catalog_def blank_tc_def timecoder_get_position_def lut_lookup_def
      sample_platform_def VALID_BITS_def)

section \<open>Direction of the crossing\<close>

lemma detect_channels_frame:
  assumes "detect_channels K g tc primary_v secondary_v = (g1, tc1)"
  shows "forwards tc1 = forwards tc" "valid_counter tc1 = valid_counter tc" "def tc1 = def tc"
    "ref_level tc1 = ref_level tc" "timecode tc1 = timecode tc" "bitstream tc1 = bitstream tc"
    "mon tc1 = mon tc"
  using assms by (auto simp: detect_channels_def split: if_splits prod.splits)

lemma process_bitstream_frame:
  "forwards (process_bitstream K tc m) = forwards tc"
  "def (process_bitstream K tc m) = def tc"
  "mon (process_bitstream K tc m) = mon tc"
  by (simp_all add: process_bitstream_def Let_def)

lemma read_bit_frame:
  "forwards (read_bit K tc v) = forwards tc"
  "def (read_bit K tc v) = def tc"
  "mon (read_bit K tc v) = mon tc"
  by (simp_all add: read_bit_def Let_def process_bitstream_frame)

lemma observe_pitch_frame:
  "forwards (observe_pitch K tc) = forwards tc"
  "def (observe_pitch K tc) = def tc"
  "valid_counter (observe_pitch K tc) = valid_counter tc"
  "ref_level (observe_pitch K tc) = ref_level tc"
  "timecode (observe_pitch K tc) = timecode tc"
  "bitstream (observe_pitch K tc) = bitstream tc"
  "primary (observe_pitch K tc) = primary tc"
  "secondary (observe_pitch K tc) = secondary tc"
  "mon (observe_pitch K tc) = mon tc"
  by (simp_all add: observe_pitch_def Let_def)

lemma process_sample_forwards:
  assumes "detect_channels K g tc primary_v secondary_v = (g1, tc1)"
  shows "forwards (snd (process_sample K g tc primary_v secondary_v)) = forwards (update_direction tc1)"
  using assms by (simp add: process_sample_def Let_def read_bit_frame observe_pitch_frame)

text \<open>
  Claim C7. For every sample in which at least one channel crossed (after the detection
  on both channels): the direction is \<open>primary.positive \<noteq> secondary.positive\<close> if the
  primary crossed and \<open>primary.positive = secondary.positive\<close> otherwise, inverted
  for a format with the SwitchPhase flag; if it differs from the decoder's previous
  direction, the direction is updated and the valid counter reset to 0, otherwise this
  step changes nothing; and it is the direction of the decoder after the sample.
\<close>

theorem direction_inference:
  assumes "detect_channels K g tc primary_v secondary_v = (g1, tc1)"
    and "swapped (primary tc1) \<or> swapped (secondary tc1)"
  shows "let fw0 = (if swapped (primary tc1)
                    then positive (primary tc1) \<noteq> positive (secondary tc1)
                    else positive (primary tc1) = positive (secondary tc1));
             fw = (if flags (timecodes ! def tc1) AND SWITCH_PHASE \<noteq> 0 then \<not> fw0 else fw0)
         in update_direction tc1 =
              (if fw \<noteq> forwards tc then tc1\<lparr> forwards := fw, valid_counter := 0 \<rparr> else tc1)
            \<and> valid_counter tc1 = valid_counter tc
            \<and> forwards (snd (process_sample K g tc primary_v secondary_v)) = fw"
  using assms(2) detect_channels_frame(1,2) [OF assms(1)] process_sample_forwards [OF assms(1)]
  by (auto simp: update_direction_def crossing_direction_def Let_def)

theorem direction_inference_witness:
  "detect_channels sample_platform () (blank_tc\<lparr> def := 3, threshold := 10 \<rparr>) 100 0
     = ((), blank_tc\<lparr> def := 3, threshold := 10,
            primary := \<lparr> positive = True, swapped = True, zero = 1, crossing_ticker = 0 \<rparr>,
            secondary := \<lparr> positive = False, swapped = False, zero = 0, crossing_ticker = 1 \<rparr> \<rparr>)
   \<and> update_direction (blank_tc\<lparr> def := 3, threshold := 10,
            primary := \<lparr> positive = True, swapped = True, zero = 1, crossing_ticker = 0 \<rparr>,
            secondary := \<lparr> positive = False, swapped = False, zero = 0, crossing_ticker = 1 \<rparr> \<rparr>)
     = blank_tc\<lparr> def := 3, threshold := 10,
            primary := \<lparr> positive = True, swapped = True, zero = 1, crossing_ticker = 0 \<rparr>,
            secondary := \<lparr> positive = False, swapped = False, zero = 0, crossing_ticker = 1 \<rparr> \<rparr>
   \<and> \<not> forwards (snd (process_sample sample_platform () (blank_tc\<lparr> def := 3, threshold := 10 \<rparr>) 100 0))"
proof -
  let ?tc = "blank_tc\<lparr> def := 3, threshold := 10 \<rparr>"
  let ?tc1 = "blank_tc\<lparr> def := 3, threshold := 10,
            primary := \<lparr> positive = True, swapped = True, zero = 1, crossing_ticker = 0 \<rparr>,
            secondary := \<lparr> positive = False, swapped = False, zero = 0, crossing_ticker = 1 \<rparr> \<rparr>"
  have f: "flags (timecodes ! 3) = 7"
    by (simp add: timecodes_def SWITCH_PHASE_def SWITCH_PRIMARY_def SWITCH_POLARITY_def)
  have d: "detect_channels sample_platform () ?tc 100 0 = ((), ?tc1)"
    by (simp add: detect_channels_def f OFFSET_MODULATION_def blank_tc_def blank_channel_def
        detect_zero_crossing_def sample_platform_def sdiv32_def signed_divide_int_def
        word_sless_alt)
  have s: "swapped (primary ?tc1) \<or> swapped (secondary ?tc1)"
    by simp
  show ?thesis
    using d direction_inference [OF d s]
    by (simp add: f SWITCH_PHASE_def blank_tc_def Let_def)
qed


section \<open>The reference level\<close>

lemma sdiv_nonneg: "0 \<le> a \<Longrightarrow> 0 < b \<Longrightarrow> (a :: int) sdiv b = a div b"
  by (simp add: signed_divide_int_def sgn_if)

lemma sint_sdiv32_48:
  assumes "0 \<le> sint a"
  shows "sint (sdiv32 a REF_PEAKS_AVG) = sint a div 48"
proof -
  have "sint a sdiv sint (48 :: int32) = sint a div 48"
    using assms by (simp add: sdiv_nonneg)
  moreover have "0 \<le> sint a div 48" "sint a div 48 < 2 ^ 31"
    using assms sint32_range [of a] by auto
  ultimately show ?thesis
    by (simp add: sdiv32_def REF_PEAKS_AVG_def sint32_of_int)
qed

lemma envelope_step:
  fixes r m :: int32
  assumes r: "0 < sint r" and m: "0 \<le> sint m"
  shows "sint (r - sdiv32 r REF_PEAKS_AVG + sdiv32 m REF_PEAKS_AVG)
           = sint r - sint r div 48 + sint m div 48"
    and "0 < sint (r - sdiv32 r REF_PEAKS_AVG + sdiv32 m REF_PEAKS_AVG)"
proof -
  have rr: "sint r < 2 ^ 31" and mr: "sint m < 2 ^ 31"
    using sint32_range [of r] sint32_range [of m] by simp_all
  have a: "sint (sdiv32 r REF_PEAKS_AVG) = sint r div 48"
    using r by (simp add: sint_sdiv32_48)
  have b: "sint (sdiv32 m REF_PEAKS_AVG) = sint m div 48"
    using m by (simp add: sint_sdiv32_48)
  have c: "0 < sint r - sint r div 48" "sint r - sint r div 48 \<le> sint r"
    using r by simp_all
  have s: "sint (r - sdiv32 r REF_PEAKS_AVG) = sint r - sint r div 48"
    using c rr by (simp add: sint32_sub a)
  have d: "sint r - sint r div 48 + sint m div 48 < 2 ^ 31"
    using r m rr mr by simp
  have e: "0 \<le> sint m div 48" using m by simp
  show "sint (r - sdiv32 r REF_PEAKS_AVG + sdiv32 m REF_PEAKS_AVG)
           = sint r - sint r div 48 + sint m div 48"
    using c d e by (simp add: sint32_add s b)
  then show "0 < sint (r - sdiv32 r REF_PEAKS_AVG + sdiv32 m REF_PEAKS_AVG)"
    using c e by simp
qed


lemma sdiv2_range:
  fixes k :: int
  assumes "- (2 ^ 31) \<le> k" "k < 2 ^ 31"
  shows "- (2 ^ 30) \<le> k sdiv 2 \<and> k sdiv 2 < 2 ^ 30"
proof (cases "0 \<le> k")
  case True
  then have "k sdiv 2 = k div 2" by (simp add: sdiv_nonneg)
  moreover have "0 \<le> k div 2" "k div 2 < 2 ^ 30" using True assms by simp_all
  ultimately show ?thesis by simp
next
  case False
  then have "k sdiv 2 = - ((- k) div 2)" by (simp add: signed_divide_int_def sgn_if)
  moreover have "0 \<le> (- k) div 2" "(- k) div 2 \<le> 2 ^ 30" using False assms by simp_all
  ultimately show ?thesis by simp
qed

lemma sint_sdiv32_2:
  "sint (sdiv32 a 2) = sint a sdiv 2"
proof -
  have "- (2 ^ 30) \<le> sint a sdiv 2 \<and> sint a sdiv 2 < 2 ^ 30"
    using sint32_range [of a] by (intro sdiv2_range) simp_all
  then show ?thesis
    by (simp add: sdiv32_def sint32_of_int)
qed

lemma amplitude_nonneg: "0 \<le> sint (abs32 (sdiv32 p 2 - sdiv32 z 2))"
proof -
  define a where "a = sdiv32 p 2 - sdiv32 z 2"
  have rp: "- (2 ^ 30) \<le> sint (sdiv32 p 2) \<and> sint (sdiv32 p 2) < 2 ^ 30"
    unfolding sint_sdiv32_2 using sint32_range [of p] by (intro sdiv2_range) simp_all
  have rz: "- (2 ^ 30) \<le> sint (sdiv32 z 2) \<and> sint (sdiv32 z 2) < 2 ^ 30"
    unfolding sint_sdiv32_2 using sint32_range [of z] by (intro sdiv2_range) simp_all
  have a: "sint a = sint (sdiv32 p 2) - sint (sdiv32 z 2)"
    unfolding a_def using rp rz by (intro sint32_sub) simp_all
  then have lo: "- (2 ^ 31) < sint a" using rp rz by simp
  show ?thesis
  proof (cases "a <s 0")
    case True
    then have neg: "sint a < 0" by (simp add: word_sless_alt)
    have "sint (0 - a) = sint (0 :: int32) - sint a"
      using lo neg by (intro sint32_sub) simp_all
    then show ?thesis using True neg by (simp add: abs32_def a_def [symmetric])
  next
    case False
    then show ?thesis by (simp add: abs32_def a_def [symmetric] word_sless_alt)
  qed
qed

lemma process_bitstream_ref_level:
  "ref_level (process_bitstream K tc m)
     = ref_level tc - sdiv32 (ref_level tc) REF_PEAKS_AVG + sdiv32 m REF_PEAKS_AVG"
  by (simp add: process_bitstream_def Let_def)

lemma update_direction_frame:
  "ref_level (update_direction tc) = ref_level tc"
  "def (update_direction tc) = def tc"
  "timecode (update_direction tc) = timecode tc"
  "bitstream (update_direction tc) = bitstream tc"
  "primary (update_direction tc) = primary tc"
  "secondary (update_direction tc) = secondary tc"
  "mon (update_direction tc) = mon tc"
  by (simp_all add: update_direction_def Let_def)

lemma read_bit_ref_level:
  "0 <s ref_level tc \<Longrightarrow> 0 <s ref_level (read_bit K tc v)"
  using envelope_step(2) [OF _ amplitude_nonneg, of "ref_level tc" v "zero (primary tc)"]
  by (simp add: read_bit_def Let_def process_bitstream_ref_level word_sless_alt)

lemma process_sample_ref_level:
  assumes "process_sample K g tc primary_v secondary_v = (g', tc')" "0 <s ref_level tc"
  shows "0 <s ref_level tc'"
proof -
  obtain g1 tc1 where d: "detect_channels K g tc primary_v secondary_v = (g1, tc1)"
    by (cases "detect_channels K g tc primary_v secondary_v")
  have "0 <s ref_level (observe_pitch K (update_direction tc1))"
    using assms(2) detect_channels_frame(4) [OF d]
    by (simp add: observe_pitch_frame update_direction_frame)
  then have "0 <s ref_level (read_bit K (observe_pitch K (update_direction tc1)) primary_v)"
    by (rule read_bit_ref_level)
  then show ?thesis
    using assms(1) d by (auto simp: process_sample_def Let_def)
qed

lemma update_monitor_frame:
  assumes "update_monitor tc x y = Inr tc'"
  shows "ref_level tc' = ref_level tc" "timecode tc' = timecode tc"
    "bitstream tc' = bitstream tc" "valid_counter tc' = valid_counter tc"
  using assms
  by (auto simp: update_monitor_def Let_def split: option.splits if_splits)

lemma update_monitor_assert:
  "update_monitor tc x y = Inl e \<Longrightarrow> \<not> 0 <s ref_level tc"
  by (auto simp: update_monitor_def Let_def split: option.splits if_splits)

lemma timecoder_submit_step:
  assumes "timecoder_submit K g tc (f # pcm) = Inr (g', tc')"
  shows "\<exists>pv sv g1 tc1 x y g2 tc2. process_sample K g tc pv sv = (g1, tc1)
           \<and> update_monitor tc1 x y = Inr tc2
           \<and> timecoder_submit K g2 tc2 pcm = Inr (g', tc')"
proof -
  obtain pcm0 pcm1 where f: "f = (pcm0, pcm1)" by (cases f)
  show ?thesis
    using assms unfolding f
    apply (simp add: Let_def split: if_splits prod.splits sum.splits)
       apply blast+
    done
qed

lemma timecoder_submit_ref_level:
  "timecoder_submit K g tc pcm = Inr (g', tc') \<Longrightarrow> 0 <s ref_level tc \<Longrightarrow> 0 <s ref_level tc'"
proof (induction pcm arbitrary: g tc)
  case Nil
  then show ?case by simp
next
  case (Cons f pcm)
  from timecoder_submit_step [OF Cons.prems(1)] obtain pv sv g1 tc1 x y g2 tc2 where
    p: "process_sample K g tc pv sv = (g1, tc1)" and
    m: "update_monitor tc1 x y = Inr tc2" and
    rest: "timecoder_submit K g2 tc2 pcm = Inr (g', tc')"
    by blast
  have "0 <s ref_level tc1"
    using process_sample_ref_level [OF p Cons.prems(2)] .
  then have "0 <s ref_level tc2"
    using update_monitor_frame(1) [OF m] by simp
  with rest show ?case by (rule Cons.IH)
qed

lemma timecoder_init_ref_level:
  "timecoder_init K cat tc0 dp speed_v sample_rate phono = Inr tc \<Longrightarrow> ref_level tc = 0x7fffffff"
  by (auto simp: timecoder_init_def Let_def split: option.splits if_splits)

lemma decoder_op_ref_level:
  assumes "decoder_op K tc tc'" "0 <s ref_level tc"
  shows "0 <s ref_level tc'"
  using assms
proof (induction rule: decoder_op.induct)
  case (op_sample g tc primary_v secondary_v g' tc')
  then show ?case by (rule process_sample_ref_level)
next
  case (op_monitor tc x y tc')
  then show ?case using update_monitor_frame(1) by metis
next
  case (op_submit g tc pcm g' tc')
  then show ?case by (rule timecoder_submit_ref_level)
next
  case (op_cycle cat tc tc')
  then show ?case by (auto simp: timecoder_cycle_definition_def split: option.splits)
next
  case (op_monitor_init mem_ok tc sz r tc')
  then show ?case by (auto simp: timecoder_monitor_init_def Let_def split: if_splits)
next
  case (op_monitor_clear tc tc')
  then show ?case by (auto simp: timecoder_monitor_clear_def split: if_splits)
next
  case (op_clear tc tc')
  then show ?case by (auto simp: timecoder_clear_def split: if_splits)
next
  case (op_get_position cat tc "when" tc' when' pos)
  then show ?case by (auto simp: timecoder_get_position_def Let_def split: if_splits)
qed

lemma reachable_ref_level: "reachable_tc K tc \<Longrightarrow> 0 <s ref_level tc"
proof (induction rule: reachable_tc.induct)
  case (r_init cat tc0 dp speed_v sample_rate phono tc)
  then show ?case by (simp add: timecoder_init_ref_level word_sless_alt)
next
  case (r_op tc tc')
  then show ?case using decoder_op_ref_level by blast
qed

text \<open>
  Claim C9. The envelope update \<open>ref_level - ref_level / 48 + m / 48\<close> in 32-bit
  arithmetic keeps a positive reference level positive for every \<open>m \<ge> 0\<close>; and in
  every decoder state reachable from \<^const>\<open>timecoder_init\<close> (where the level is
  \<^verbatim>\<open>INT_MAX\<close>) the reference level is positive, so that the assertion of
  \<^const>\<open>update_monitor\<close> does not fail.
\<close>

theorem ref_level_positive:
  "(0 <s r \<and> 0 \<le>s m \<longrightarrow> 0 <s r - sdiv32 r REF_PEAKS_AVG + sdiv32 m REF_PEAKS_AVG)
   \<and> (reachable_tc K tc \<longrightarrow> 0 <s ref_level tc \<and> update_monitor tc x y \<noteq> Inl AssertionFailed)"
proof (intro conjI impI)
  assume "0 <s r \<and> 0 \<le>s m"
  then show "0 <s r - sdiv32 r REF_PEAKS_AVG + sdiv32 m REF_PEAKS_AVG"
    using envelope_step(2) [of r m] by (simp add: word_sless_alt word_sle_eq)
next
  assume r: "reachable_tc K tc"
  then show "0 <s ref_level tc" by (rule reachable_ref_level)
  then show "update_monitor tc x y \<noteq> Inl AssertionFailed"
    using update_monitor_assert by blast
qed


theorem ref_level_positive_witness:
  "0 <s (0x7fffffff :: int32) \<and> 0 \<le>s (5 :: int32)
   \<and> 0 <s (0x7fffffff :: int32) - sdiv32 0x7fffffff REF_PEAKS_AVG + sdiv32 5 REF_PEAKS_AVG
   \<and> reachable_tc sample_platform (blank_tc\<lparr> dt := 1, zero_alpha := 1, threshold := ZERO_THRESHOLD,
        forwards := True, ref_level := 0x7fffffff \<rparr>)
   \<and> update_monitor (blank_tc\<lparr> dt := 1, zero_alpha := 1, threshold := ZERO_THRESHOLD,
        forwards := True, ref_level := 0x7fffffff \<rparr>) 0 0 \<noteq> Inl AssertionFailed"
proof -
  let ?tc = "blank_tc\<lparr> dt := 1, zero_alpha := 1, threshold := ZERO_THRESHOLD,
        forwards := True, ref_level := 0x7fffffff \<rparr>"
  have "flags (timecodes ! 0) = 0" by (simp add: timecodes_def)
  then have "timecoder_init sample_platform sample_catalog blank_tc (Some 0) 0 44100 False = Inr ?tc"
    by (simp add: timecoder_init_def sample_catalog_def sample_platform_def blank_tc_def
        init_channel_def blank_channel_def Let_def)
  then have r: "reachable_tc sample_platform ?tc" by (rule r_init)
  have a: "0 <s (0x7fffffff :: int32) \<and> 0 \<le>s (5 :: int32)"
    by (simp add: word_sless_alt word_sle_eq)
  show ?thesis
    using a r ref_level_positive [of "0x7fffffff" 5 sample_platform ?tc 0 0] by blast
qed

section \<open>Validity scoring\<close>

lemma process_bitstream_timecode:
  "timecode (process_bitstream K tc m) = bitstream (process_bitstream K tc m)"
  by (simp add: process_bitstream_def Let_def)

lemma process_bitstream_scoring:
  "(let d = timecodes ! def tc;
        b = (of_bool (ref_level tc <s m) :: bits_t);
        expected = (if forwards tc then fwd (timecode tc) d else rev_tc (timecode tc) d);
        shifted = (if forwards tc
                   then drop_bit 1 (bitstream tc) + push_bit (bits d - 1) b
                   else (push_bit 1 (bitstream tc) AND scast (int_shl1 K (bits d) - 1)) + b);
        tc' = process_bitstream K tc m
    in bitstream tc' = shifted
       \<and> (if expected = shifted
          then timecode tc' = expected \<and> valid_counter tc' = valid_counter tc + 1
          else timecode tc' = shifted \<and> valid_counter tc' = 0))"
  by (simp add: process_bitstream_def Let_def)

lemma read_bit_resync: "resync_inv tc \<Longrightarrow> resync_inv (read_bit K tc v)"
  by (simp add: read_bit_def Let_def resync_inv_def process_bitstream_timecode)

lemma update_direction_resync: "resync_inv tc \<Longrightarrow> resync_inv (update_direction tc)"
  by (simp add: update_direction_def Let_def resync_inv_def)

lemma observe_pitch_resync: "resync_inv tc \<Longrightarrow> resync_inv (observe_pitch K tc)"
  by (simp add: resync_inv_def observe_pitch_frame)

lemma process_sample_resync:
  assumes "process_sample K g tc primary_v secondary_v = (g', tc')" "resync_inv tc"
  shows "resync_inv tc'"
proof -
  obtain g1 tc1 where d: "detect_channels K g tc primary_v secondary_v = (g1, tc1)"
    by (cases "detect_channels K g tc primary_v secondary_v")
  have "resync_inv tc1"
    using assms(2) detect_channels_frame [OF d] by (simp add: resync_inv_def)
  then have "resync_inv (read_bit K (observe_pitch K (update_direction tc1)) primary_v)"
    by (intro read_bit_resync observe_pitch_resync update_direction_resync)
  then show ?thesis
    using assms(1) d by (auto simp: process_sample_def Let_def resync_inv_def)
qed

lemma timecoder_submit_resync:
  "timecoder_submit K g tc pcm = Inr (g', tc') \<Longrightarrow> resync_inv tc \<Longrightarrow> resync_inv tc'"
proof (induction pcm arbitrary: g tc)
  case Nil
  then show ?case by simp
next
  case (Cons f pcm)
  from timecoder_submit_step [OF Cons.prems(1)] obtain pv sv g1 tc1 x y g2 tc2 where
    p: "process_sample K g tc pv sv = (g1, tc1)" and
    m: "update_monitor tc1 x y = Inr tc2" and
    rest: "timecoder_submit K g2 tc2 pcm = Inr (g', tc')"
    by blast
  have "resync_inv tc1"
    using process_sample_resync [OF p Cons.prems(2)] .
  then have "resync_inv tc2"
    using update_monitor_frame [OF m] by (simp add: resync_inv_def)
  with rest show ?case by (rule Cons.IH)
qed

lemma decoder_op_resync:
  assumes "decoder_op K tc tc'" "resync_inv tc"
  shows "resync_inv tc'"
  using assms
proof (induction rule: decoder_op.induct)
  case (op_sample g tc primary_v secondary_v g' tc')
  then show ?case by (rule process_sample_resync)
next
  case (op_monitor tc x y tc')
  then show ?case using update_monitor_frame [of tc x y tc'] by (simp add: resync_inv_def)
next
  case (op_submit g tc pcm g' tc')
  then show ?case by (rule timecoder_submit_resync)
next
  case (op_cycle cat tc tc')
  then show ?case
    by (auto simp: timecoder_cycle_definition_def resync_inv_def split: option.splits)
next
  case (op_monitor_init mem_ok tc sz r tc')
  then show ?case
    by (auto simp: timecoder_monitor_init_def Let_def resync_inv_def split: if_splits)
next
  case (op_monitor_clear tc tc')
  then show ?case by (auto simp: timecoder_monitor_clear_def resync_inv_def split: if_splits)
next
  case (op_clear tc tc')
  then show ?case by (auto simp: timecoder_clear_def split: if_splits)
next
  case (op_get_position cat tc "when" tc' when' pos)
  then show ?case by (auto simp: timecoder_get_position_def Let_def split: if_splits)
qed

lemma timecoder_init_resync:
  "timecoder_init K cat tc0 dp speed_v sample_rate phono = Inr tc \<Longrightarrow> resync_inv tc"
  by (auto simp: timecoder_init_def Let_def resync_inv_def split: option.splits if_splits)

lemma reachable_resync: "reachable_tc K tc \<Longrightarrow> resync_inv tc"
  by (induction rule: reachable_tc.induct) (auto intro: timecoder_init_resync decoder_op_resync)

text \<open>
  Claim C5. On every decoded bit, that is at every call of \<^const>\<open>process_bitstream\<close>:
  the expected timecode is stepped and the bitstream is shifted in the decoder's
  direction, taking in the decoded bit \<open>b\<close> (forwards: \<open>(bitstream >> 1) + (b << (bits -
  1))\<close>; in reverse: \<open>((bitstream << 1) & mask) + b\<close> with the mask as the source computes
  it), and the bitstream after the call is that shifted value. If the stepped timecode
  equals the shifted bitstream the valid counter is incremented by one (modulo
  \<open>2\<^sup>3\<^sup>2\<close>, as \<^verbatim>\<open>unsigned int\<close>) and the timecode is the stepped one; otherwise the
  timecode is set to the shifted bitstream and the valid counter to 0. The invariant
  that the valid counter is 0 whenever the timecode differs from the bitstream holds
  after \<^const>\<open>timecoder_init\<close>, is kept by every operation of the decoder, and so holds
  in every state the decoder reaches.
\<close>

theorem validity_scoring:
  "(let d = timecodes ! def tc;
        b = (of_bool (ref_level tc <s m) :: bits_t);
        expected = (if forwards tc then fwd (timecode tc) d else rev_tc (timecode tc) d);
        shifted = (if forwards tc
                   then drop_bit 1 (bitstream tc) + push_bit (bits d - 1) b
                   else (push_bit 1 (bitstream tc) AND scast (int_shl1 K (bits d) - 1)) + b);
        tc' = process_bitstream K tc m
    in bitstream tc' = shifted
       \<and> (if expected = shifted
          then timecode tc' = expected \<and> valid_counter tc' = valid_counter tc + 1
          else timecode tc' = shifted \<and> valid_counter tc' = 0))
   \<and> (timecoder_init K cat tc0 dp speed_v sample_rate phono = Inr tc1 \<longrightarrow> resync_inv tc1)
   \<and> (resync_inv tc2 \<and> decoder_op K tc2 tc3 \<longrightarrow> resync_inv tc3)
   \<and> (reachable_tc K tc4 \<longrightarrow> resync_inv tc4)"
proof (intro conjI impI)
  show "let d = timecodes ! def tc;
        b = (of_bool (ref_level tc <s m) :: bits_t);
        expected = (if forwards tc then fwd (timecode tc) d else rev_tc (timecode tc) d);
        shifted = (if forwards tc
                   then drop_bit 1 (bitstream tc) + push_bit (bits d - 1) b
                   else (push_bit 1 (bitstream tc) AND scast (int_shl1 K (bits d) - 1)) + b);
        tc' = process_bitstream K tc m
    in bitstream tc' = shifted
       \<and> (if expected = shifted
          then timecode tc' = expected \<and> valid_counter tc' = valid_counter tc + 1
          else timecode tc' = shifted \<and> valid_counter tc' = 0)"
    by (rule process_bitstream_scoring)
next
  assume "timecoder_init K cat tc0 dp speed_v sample_rate phono = Inr tc1"
  then show "resync_inv tc1" by (rule timecoder_init_resync)
next
  assume "resync_inv tc2 \<and> decoder_op K tc2 tc3"
  then show "resync_inv tc3" using decoder_op_resync by blast
next
  assume "reachable_tc K tc4"
  then show "resync_inv tc4" by (rule reachable_resync)
qed

text \<open>
  The statement at a decoded bit of a reachable decoder: \<^const>\<open>started_tc\<close> is the
  result of \<^const>\<open>timecoder_init\<close>; the sample \<open>(2\<^sup>3\<^sup>0, 2\<^sup>3\<^sup>0)\<close> makes both channels cross,
  turns the direction to reverse and decodes the bit 0 by \<^const>\<open>process_bitstream\<close> on
  \<^const>\<open>crossed_tc\<close> with the amplitude \<open>0x1f800000\<close>; the stepped timecode and the shifted
  bitstream are both 0 and the valid counter goes from 0 to 1.
\<close>

theorem validity_scoring_witness:
  "timecoder_init sample_platform sample_catalog blank_tc (Some 0) 0 44100 False = Inr started_tc
   \<and> resync_inv started_tc
   \<and> process_sample sample_platform () started_tc 0x40000000 0x40000000 = ((), decoded_tc)
   \<and> read_bit sample_platform crossed_tc 0x40000000
        = process_bitstream sample_platform crossed_tc 0x1f800000
   \<and> decoder_op sample_platform started_tc decoded_tc
   \<and> reachable_tc sample_platform decoded_tc
   \<and> resync_inv decoded_tc
   \<and> \<not> forwards crossed_tc \<and> valid_counter crossed_tc = 0
   \<and> rev_tc (timecode crossed_tc) (timecodes ! def crossed_tc) = 0
   \<and> (push_bit 1 (bitstream crossed_tc)
         AND scast (int_shl1 sample_platform (bits (timecodes ! def crossed_tc)) - 1))
        + of_bool (ref_level crossed_tc <s 0x1f800000) = 0
   \<and> bitstream (process_bitstream sample_platform crossed_tc 0x1f800000) = 0
   \<and> timecode (process_bitstream sample_platform crossed_tc 0x1f800000) = 0
   \<and> valid_counter (process_bitstream sample_platform crossed_tc 0x1f800000) = 1"
proof -
  let ?K = "sample_platform"
  have f: "flags (timecodes ! 0) = 0" "bits (timecodes ! 0) = 20"
    by (simp_all add: timecodes_def)
  have i: "timecoder_init ?K sample_catalog blank_tc (Some 0) 0 44100 False = Inr started_tc"
    using f by (simp add: timecoder_init_def sample_catalog_def sample_platform_def blank_tc_def
        started_tc_def init_channel_def blank_channel_def Let_def)
  have r0: "rev_tc 0 (timecodes ! 0) = 0"
    by (simp add: rev_tc_def lfsr_def lfsr_loop.simps Let_def)
  have c: "def crossed_tc = 0" "\<not> forwards crossed_tc" "valid_counter crossed_tc = 0"
      "timecode crossed_tc = 0" "bitstream crossed_tc = 0" "ref_level crossed_tc = 0x7fffffff"
    by (simp_all add: crossed_tc_def started_tc_def blank_tc_def)
  have s: "(push_bit 1 (bitstream crossed_tc)
         AND scast (int_shl1 ?K (bits (timecodes ! def crossed_tc)) - 1))
        + of_bool (ref_level crossed_tc <s 0x1f800000) = (0 :: bits_t)"
    by (simp add: c f int_shl1_def word_sless_alt)
  have e: "rev_tc (timecode crossed_tc) (timecodes ! def crossed_tc) = 0"
    by (simp add: c r0)
  have d: "detect_channels ?K () started_tc 0x40000000 0x40000000
      = ((), started_tc\<lparr> primary := crossed_channel, secondary := crossed_channel \<rparr>)"
    using f by (simp add: detect_channels_def detect_zero_crossing_def started_tc_def
        blank_tc_def blank_channel_def crossed_channel_def sample_platform_def
        ZERO_THRESHOLD_def sdiv32_def signed_divide_int_def word_sless_alt Let_def)
  have u: "observe_pitch ?K (update_direction
        (started_tc\<lparr> primary := crossed_channel, secondary := crossed_channel \<rparr>)) = crossed_tc"
    using f by (simp add: update_direction_def crossing_direction_def observe_pitch_def
        crossed_tc_def started_tc_def blank_tc_def crossed_channel_def sample_platform_def
        SWITCH_PHASE_def Let_def)
  have m: "abs32 (sdiv32 0x40000000 2 - sdiv32 (zero (primary crossed_tc)) 2) = 0x1f800000"
    by (simp add: crossed_tc_def crossed_channel_def abs32_def sdiv32_def
        signed_divide_int_def word_sless_alt)
  have rb: "read_bit ?K crossed_tc 0x40000000 = process_bitstream ?K crossed_tc 0x1f800000"
    using f m by (simp add: read_bit_def Let_def c crossed_tc_def crossed_channel_def
        started_tc_def blank_tc_def SWITCH_POLARITY_def)
  have pb: "(process_bitstream ?K crossed_tc 0x1f800000)\<lparr> timecode_ticker := 1 \<rparr> = decoded_tc"
    using f r0 by (simp add: process_bitstream_def Let_def c decoded_tc_def int_shl1_def
        OFFSET_MODULATION_def REF_PEAKS_AVG_def sdiv32_def signed_divide_int_def word_sless_alt
        crossed_tc_def started_tc_def blank_tc_def)
  have tk: "timecode_ticker (process_bitstream ?K crossed_tc 0x1f800000) = 0"
    by (simp add: process_bitstream_def Let_def)
  have p: "process_sample ?K () started_tc 0x40000000 0x40000000 = ((), decoded_tc)"
    using pb by (simp add: process_sample_def d u rb tk Let_def)
  then have o: "decoder_op ?K started_tc decoded_tc" by (rule op_sample)
  have r1: "reachable_tc ?K started_tc" using i by (rule r_init)
  then have r2: "reachable_tc ?K decoded_tc" using o by (rule r_op)
  have v: "resync_inv started_tc" by (simp add: resync_inv_def started_tc_def blank_tc_def)
  show ?thesis
    using i p rb o r2 v c s e
      validity_scoring [where tc = crossed_tc and K = ?K and m = "0x1f800000"
        and cat = sample_catalog and ?tc0.0 = blank_tc and dp = "Some 0" and speed_v = 0
        and sample_rate = 44100 and phono = False and ?tc1.0 = started_tc
        and ?tc2.0 = started_tc and ?tc3.0 = decoded_tc and ?tc4.0 = decoded_tc]
    by (simp add: Let_def)
qed


section \<open>Width of the bitstream register\<close>

lemma add_bit0:
  fixes a :: bits_t
  assumes "\<not> bit a 0"
  shows "a + of_bool c = a OR of_bool c"
proof (rule disjunctive_add_eq_or, rule bit_word_eqI)
  fix n assume "n < LENGTH(128)"
  show "bit (a AND of_bool c) n = bit (0 :: bits_t) n"
    using assms by (cases n) (auto simp: bit_and_iff bit_of_bool_iff)
qed

lemma process_bitstream_reverse:
  assumes "\<not> forwards tc"
  shows "bitstream (process_bitstream K tc m)
     = (push_bit 1 (bitstream tc) AND scast (int_shl1 K (bits (timecodes ! def tc)) - 1))
        OR of_bool (ref_level tc <s m)"
proof -
  have "\<not> bit (push_bit 1 (bitstream tc) AND scast (int_shl1 K (bits (timecodes ! def tc)) - 1)) 0"
    by (simp only: bit_and_iff bit_push_bit_iff) simp
  from add_bit0 [OF this] show ?thesis
    using assms by (simp add: process_bitstream_def Let_def)
qed

lemma int_mask_sign:
  fixes w :: int32
  shows "bit (scast w :: bits_t) 41 = bit (scast w :: bits_t) 110"
  by (simp add: bit_word_scast_iff) (auto dest: bit_imp_le_length)

text \<open>
  Claim C1, at the traktor_mk2_a format (110 bits), in the reverse direction, for the
  bitstream \<open>2\<^sup>1\<^sup>0\<^sup>9 + 2\<^sup>4\<^sup>0\<close>: whatever value the platform gives to the shift
  \<^verbatim>\<open>1 << 110\<close> on \<^verbatim>\<open>int\<close>, the bitstream after \<^const>\<open>process_bitstream\<close> is not
  \<open>((old << 1) & ((1 << bits) - 1)) | b\<close> with the mask at full register width. The mask
  of the source is an \<^verbatim>\<open>int\<close> converted to the register type, so its bits 41 and 110
  are equal, while the full-width mask has bit 41 set and bit 110 clear.
\<close>

theorem reverse_mask_not_full_width:
  "bitstream (process_bitstream K
       (tc\<lparr> def := 5, forwards := False, bitstream := push_bit 109 1 OR push_bit 40 1 \<rparr>) m)
     \<noteq> (push_bit 1 (push_bit 109 1 OR push_bit 40 1) AND (push_bit 110 1 - 1))
          OR of_bool (ref_level tc <s m)"
proof
  let ?tc = "tc\<lparr> def := 5, forwards := False, bitstream := push_bit 109 1 OR push_bit 40 1 \<rparr>"
  let ?S = "push_bit 1 (push_bit 109 1 OR push_bit 40 1) :: bits_t"
  let ?M = "scast (int_shl1 K (bits (timecodes ! 5)) - 1) :: bits_t"
  let ?b = "of_bool (ref_level tc <s m) :: bits_t"
  assume "bitstream (process_bitstream K ?tc m) = (?S AND (push_bit 110 1 - 1)) OR ?b"
  then have e: "(?S AND ?M) OR ?b = (?S AND (push_bit 110 1 - 1)) OR ?b"
    using process_bitstream_reverse [of ?tc K m] by simp
  have s41: "bit ?S 41" and s110: "bit ?S 110"
    by (simp_all only: bit_push_bit_iff bit_or_iff) (simp_all add: bit_simps)
  have m41: "bit (push_bit 110 1 - 1 :: bits_t) 41" and m110: "\<not> bit (push_bit 110 1 - 1 :: bits_t) 110"
    using mask_bit [of 110 41] mask_bit [of 110 110] by simp_all
  have "bit ((?S AND ?M) OR ?b) 41 = bit ?M 41"
    using s41 by (simp only: bit_or_iff bit_and_iff bit_of_bool_iff) simp
  moreover have "bit ((?S AND (push_bit 110 1 - 1)) OR ?b) 41"
    using s41 m41 by (simp only: bit_or_iff bit_and_iff bit_of_bool_iff) simp
  moreover have "bit ((?S AND ?M) OR ?b) 110 = bit ?M 110"
    using s110 by (simp only: bit_or_iff bit_and_iff bit_of_bool_iff) simp
  moreover have "\<not> bit ((?S AND (push_bit 110 1 - 1)) OR ?b) 110"
    using m110 by (simp only: bit_or_iff bit_and_iff bit_of_bool_iff) simp
  ultimately have "bit ?M 41" "\<not> bit ?M 110" using e by simp_all
  then show False using int_mask_sign [of "int_shl1 K (bits (timecodes ! 5)) - 1"] by simp
qed


text \<open>
  Where C1 holds: in the reverse direction for every format narrower than an \<^verbatim>\<open>int\<close>
  (the 20- and 23-bit formats), and in the forward direction for every width below 128.
\<close>

lemma bits_below:
  fixes x :: bits_t
  assumes "b < 128" "\<And>n. b \<le> n \<Longrightarrow> \<not> bit x n"
  shows "x < 2 ^ b"
proof -
  have "take_bit b x = x"
  proof (rule bit_word_eqI)
    fix n assume "n < LENGTH(128)"
    show "bit (take_bit b x) n = bit x n"
      using assms(2) [of n] by (cases "b \<le> n") (auto simp: bit_take_bit_iff)
  qed
  then have "x AND mask b = x"
    by (simp add: take_bit_eq_mask)
  then show ?thesis
    using and_mask_less_size [of b x] assms(1) by (simp add: word_size)
qed

lemma int_mask_narrow:
  assumes "n < 31"
  shows "(scast (int_shl1 K n - 1) :: bits_t) = push_bit n 1 - 1"
proof -
  have a: "int_shl1 K n - 1 = (mask n :: int32)"
    using assms by (simp add: int_shl1_def mask_eq_exp_minus_1)
  have b: "(push_bit n 1 - 1 :: bits_t) = mask n"
    by (simp add: mask_eq_exp_minus_1)
  show ?thesis
    unfolding a b
    by (rule bit_word_eqI) (use assms in \<open>auto simp: bit_word_scast_iff bit_mask_iff\<close>)
qed

lemma bitstream_reverse_narrow:
  assumes "\<not> forwards tc" "0 < bits (timecodes ! def tc)" "bits (timecodes ! def tc) < 31"
  shows "bitstream (process_bitstream K tc m)
           = (push_bit 1 (bitstream tc) AND (push_bit (bits (timecodes ! def tc)) 1 - 1))
              OR of_bool (ref_level tc <s m)"
    and "bitstream (process_bitstream K tc m) < 2 ^ bits (timecodes ! def tc)"
proof -
  show e: "bitstream (process_bitstream K tc m)
           = (push_bit 1 (bitstream tc) AND (push_bit (bits (timecodes ! def tc)) 1 - 1))
              OR of_bool (ref_level tc <s m)"
    by (simp only: process_bitstream_reverse [OF assms(1)] int_mask_narrow [OF assms(3)])
  show "bitstream (process_bitstream K tc m) < 2 ^ bits (timecodes ! def tc)"
  proof (rule bits_below)
    show "bits (timecodes ! def tc) < 128" using assms(3) by simp
  next
    fix n assume "bits (timecodes ! def tc) \<le> n"
    then show "\<not> bit (bitstream (process_bitstream K tc m)) n"
      unfolding e using assms(2) mask_bit [of "bits (timecodes ! def tc)" n]
      by (simp add: bit_or_iff bit_and_iff bit_of_bool_iff)
  qed
qed

lemma bitstream_forwards:
  assumes "forwards tc" "0 < bits (timecodes ! def tc)" "bits (timecodes ! def tc) < 128"
    and "bitstream tc < 2 ^ bits (timecodes ! def tc)"
  shows "bitstream (process_bitstream K tc m)
           = drop_bit 1 (bitstream tc)
              OR push_bit (bits (timecodes ! def tc) - 1) (of_bool (ref_level tc <s m))"
    and "bitstream (process_bitstream K tc m) < 2 ^ bits (timecodes ! def tc)"
proof -
  let ?k = "bits (timecodes ! def tc) - 1"
  let ?b = "of_bool (ref_level tc <s m) :: bits_t"
  have top: "\<not> bit (bitstream tc) n" if "bits (timecodes ! def tc) \<le> n" for n
    using small_bit [OF assms(4) that] .
  have "drop_bit 1 (bitstream tc) AND push_bit ?k ?b = 0"
  proof (rule bit_word_eqI)
    fix n assume "n < LENGTH(128)"
    show "bit (drop_bit 1 (bitstream tc) AND push_bit ?k ?b) n = bit (0 :: bits_t) n"
      using top [of "Suc n"] assms(2)
      by (auto simp: bit_and_iff bit_drop_bit_eq bit_push_bit_iff bit_of_bool_iff)
  qed
  then have "drop_bit 1 (bitstream tc) + push_bit ?k ?b = drop_bit 1 (bitstream tc) OR push_bit ?k ?b"
    by (rule disjunctive_add_eq_or)
  then show e: "bitstream (process_bitstream K tc m) = drop_bit 1 (bitstream tc) OR push_bit ?k ?b"
    using assms(1) by (simp add: process_bitstream_def Let_def)
  show "bitstream (process_bitstream K tc m) < 2 ^ bits (timecodes ! def tc)"
  proof (rule bits_below)
    show "bits (timecodes ! def tc) < 128" by (rule assms(3))
  next
    fix n assume n: "bits (timecodes ! def tc) \<le> n"
    then have "\<not> bit (bitstream tc) (Suc n)" using top [of "Suc n"] by simp
    with n show "\<not> bit (bitstream (process_bitstream K tc m)) n"
      unfolding e using assms(2)
      by (auto simp: bit_or_iff bit_drop_bit_eq bit_push_bit_iff bit_of_bool_iff)
  qed
qed


section \<open>The forward step on natural numbers\<close>

lemma parn_0: "parn 0 = False"
  by (simp add: parn.simps)

lemma parn_rec: "parn n = (odd n \<noteq> parn (n div 2))"
  by (cases "n = 0") (simp_all add: parn_0, subst parn.simps, simp)

lemma parn_xor: "parn (a XOR b) = (parn a \<noteq> parn b)"
proof (induction a arbitrary: b rule: less_induct)
  case (less a)
  show ?case
  proof (cases "a = 0")
    case True
    then show ?thesis by (simp add: parn_0)
  next
    case False
    then have "a div 2 < a" by simp
    then have ih: "parn (a div 2 XOR b div 2) = (parn (a div 2) \<noteq> parn (b div 2))"
      by (rule less.IH)
    have "drop_bit 1 (a XOR b) = drop_bit 1 a XOR drop_bit 1 b"
      by (rule drop_bit_xor)
    then have "(a XOR b) div 2 = a div 2 XOR b div 2"
      by (simp add: drop_bit_eq_div)
    moreover have "odd (a XOR b) = (odd a \<noteq> odd b)"
      by (simp add: even_xor_iff)
    ultimately show ?thesis
      using ih parn_rec [of "a XOR b"] parn_rec [of a] parn_rec [of b] by auto
  qed
qed

lemma small_nat_bit: "x < 2 ^ n \<Longrightarrow> n \<le> j \<Longrightarrow> \<not> bit (x :: nat) j"
  by (metis bit_take_bit_iff not_le take_bit_nat_eq_self)

lemma small_natI: "(\<And>j. n \<le> j \<Longrightarrow> \<not> bit (x :: nat) j) \<Longrightarrow> x < 2 ^ n"
proof -
  assume a: "\<And>j. n \<le> j \<Longrightarrow> \<not> bit x j"
  have "take_bit n x = x"
    by (rule bit_eqI) (use a in \<open>auto simp: bit_take_bit_iff not_le [symmetric]\<close>)
  then show ?thesis by (simp add: take_bit_nat_eq_self_iff)
qed

lemma bit_fwdn:
  assumes "x < 2 * 2 ^ k"
  shows "bit (fwdn t (2 ^ k) x) j \<longleftrightarrow> bit x (Suc j) \<or> (j = k \<and> parn (x AND t))"
proof -
  have d: "x div 2 = drop_bit 1 x" by (simp add: drop_bit_eq_div)
  have s: "\<not> bit (drop_bit 1 x) k"
    using small_nat_bit [of x "Suc k" "Suc k"] assms by (simp add: bit_drop_bit_eq)
  have "drop_bit 1 x AND 2 ^ k = 0"
    by (rule bit_eqI) (use s in \<open>auto simp: bit_and_iff bit_exp_iff\<close>)
  then have "drop_bit 1 x + 2 ^ k = drop_bit 1 x OR 2 ^ k"
    by (rule disjunctive_add_eq_or)
  then show ?thesis
    by (auto simp: fwdn_def d bit_or_iff bit_exp_iff bit_drop_bit_eq)
qed

lemma fwdn_closed:
  assumes "x < 2 * 2 ^ k"
  shows "fwdn t (2 ^ k) x < 2 * 2 ^ k"
proof -
  have "fwdn t (2 ^ k) x < 2 ^ Suc k"
  proof (rule small_natI)
    fix j assume "Suc k \<le> j"
    then show "\<not> bit (fwdn t (2 ^ k) x) j"
      using small_nat_bit [of x "Suc k" "Suc j"] assms by (simp add: bit_fwdn)
  qed
  then show ?thesis by simp
qed

lemma xor_closed: "x < 2 * 2 ^ k \<Longrightarrow> y < 2 * 2 ^ k \<Longrightarrow> x XOR y < 2 * (2 ^ k :: nat)"
  using small_natI [of "Suc k" "x XOR y"] small_nat_bit [of x "Suc k"] small_nat_bit [of y "Suc k"]
  by (simp add: bit_xor_iff)

lemma fwdn_xor:
  assumes "x < 2 * 2 ^ k" "y < 2 * 2 ^ k"
  shows "fwdn t (2 ^ k) (x XOR y) = fwdn t (2 ^ k) x XOR fwdn t (2 ^ k) y"
proof (rule bit_eqI)
  fix j
  have "(x XOR y) AND t = (x AND t) XOR (y AND t)"
    by (rule bit_eqI) (auto simp: bit_and_iff bit_xor_iff)
  then show "bit (fwdn t (2 ^ k) (x XOR y)) j = bit (fwdn t (2 ^ k) x XOR fwdn t (2 ^ k) y) j"
    using assms xor_closed [OF assms]
      small_nat_bit [of x "Suc k" "Suc k"] small_nat_bit [of y "Suc k" "Suc k"]
    by (auto simp: bit_fwdn bit_xor_iff parn_xor)
qed

lemma fwdn_0: "fwdn t h 0 = 0"
  by (simp add: fwdn_def parn_0)

lemma fwdn_inj:
  assumes "odd t" "x < 2 * 2 ^ k" "y < 2 * 2 ^ k" "fwdn t (2 ^ k) x = fwdn t (2 ^ k) y"
  shows "x = y"
proof -
  define z where "z = x XOR y"
  have z: "z < 2 * 2 ^ k" unfolding z_def using assms(2,3) by (rule xor_closed)
  have "fwdn t (2 ^ k) z = 0"
    unfolding z_def using assms by (simp add: fwdn_xor)
  then have b: "\<not> bit (fwdn t (2 ^ k) z) j" for j by simp
  have hi: "\<not> bit z (Suc j)" for j using b [of j] z by (simp add: bit_fwdn)
  have p: "\<not> parn (z AND t)" using b [of k] z by (simp add: bit_fwdn)
  have zb: "z = of_bool (bit z 0)"
  proof (rule bit_eqI)
    fix j show "bit z j = bit (of_bool (bit z 0) :: nat) j"
      using hi by (cases j) (simp_all add: bit_of_bool_iff)
  qed
  have "\<not> bit z 0"
  proof
    assume "bit z 0"
    with zb have "z = 1" by simp
    then have "z AND t = 1"
      using assms(1) by (simp add: and_one_eq mod_2_eq_odd flip: bit_0) 
    then show False using p by (simp add: parn.simps)
  qed
  with zb have "z = 0" by simp
  then have "x XOR (x XOR y) = x" by (simp add: z_def)
  then show ?thesis by (simp flip: xor.assoc)
qed


lemma evn_0: "evn t h 0 x = 0"
  by (simp add: evn.simps)

lemma evn_rec: "evn t h r x = addc r x (fwdn t h (evn t h (r div 2) x))"
proof (cases "r = 0")
  case True
  then show ?thesis by (simp add: evn_0 fwdn_0 addc_def)
next
  case False
  then show ?thesis by (subst evn.simps) simp
qed

lemma addc_closed:
  "r < 2 * 2 ^ k \<Longrightarrow> c < 2 * 2 ^ k \<Longrightarrow> addc a c r < 2 * (2 ^ k :: nat)"
  by (simp add: addc_def xor_closed)

lemma evn_closed:
  assumes "x < 2 * 2 ^ k"
  shows "evn t (2 ^ k) r x < 2 * 2 ^ k"
proof (induction r rule: less_induct)
  case (less r)
  show ?case
  proof (cases "r = 0")
    case True
    then show ?thesis by (simp add: evn_0)
  next
    case False
    then have "evn t (2 ^ k) (r div 2) x < 2 * 2 ^ k" by (intro less.IH) simp
    then show ?thesis
      by (subst evn_rec) (intro addc_closed fwdn_closed assms)
  qed
qed

lemma addc_xor_poly:
  "addc (r XOR q) x (A XOR B) = addc r x A XOR addc q x B"
  by (rule bit_eqI) (auto simp: addc_def bit_xor_iff even_xor_iff)

lemma addc_xor_arg:
  "addc a (x XOR y) (r XOR s) = addc a x r XOR addc a y s"
  by (simp add: addc_def ac_simps)

lemma evn_xor_arg:
  assumes "x < 2 * 2 ^ k" "y < 2 * 2 ^ k"
  shows "evn t (2 ^ k) r (x XOR y) = evn t (2 ^ k) r x XOR evn t (2 ^ k) r y"
proof (induction r rule: less_induct)
  case (less r)
  show ?case
  proof (cases "r = 0")
    case True
    then show ?thesis by (simp add: evn_0)
  next
    case False
    then have ih: "evn t (2 ^ k) (r div 2) (x XOR y)
        = evn t (2 ^ k) (r div 2) x XOR evn t (2 ^ k) (r div 2) y"
      by (intro less.IH) simp
    show ?thesis
      by (subst (1 2 3) evn_rec)
        (simp only: ih fwdn_xor [OF evn_closed [OF assms(1)] evn_closed [OF assms(2)]] addc_xor_arg)
  qed
qed

lemma evn_xor_poly:
  assumes "x < 2 * 2 ^ k"
  shows "evn t (2 ^ k) (r XOR q) x = evn t (2 ^ k) r x XOR evn t (2 ^ k) q x"
proof (induction r arbitrary: q rule: less_induct)
  case (less r)
  show ?case
  proof (cases "r = 0")
    case True
    then show ?thesis by (simp add: evn_0)
  next
    case False
    then have ih: "evn t (2 ^ k) (r div 2 XOR q div 2) x
        = evn t (2 ^ k) (r div 2) x XOR evn t (2 ^ k) (q div 2) x"
      by (intro less.IH) simp
    have "drop_bit 1 (r XOR q) = drop_bit 1 r XOR drop_bit 1 q"
      by (rule drop_bit_xor)
    then have d: "(r XOR q) div 2 = r div 2 XOR q div 2"
      by (simp add: drop_bit_eq_div)
    have o: "odd (r XOR q) = (odd r \<noteq> odd q)"
      by (simp add: even_xor_iff)
    show ?thesis
      by (subst (1 2 3) evn_rec)
        (simp only: d ih addc_xor_poly
          fwdn_xor [OF evn_closed [OF assms] evn_closed [OF assms]])
  qed
qed

lemma evn_double:
  "evn t h (2 * r) x = fwdn t h (evn t h r x)"
  by (subst evn_rec) (simp add: addc_def)

lemma evn_1: "evn t h 1 x = x"
  by (subst evn_rec) (simp add: addc_def evn_0 fwdn_0)

lemma evn_fwdn:
  assumes "x < 2 * 2 ^ k"
  shows "evn t (2 ^ k) r (fwdn t (2 ^ k) x) = fwdn t (2 ^ k) (evn t (2 ^ k) r x)"
proof (induction r rule: less_induct)
  case (less r)
  show ?case
  proof (cases "r = 0")
    case True
    then show ?thesis by (simp add: evn_0 fwdn_0)
  next
    case False
    then have ih: "evn t (2 ^ k) (r div 2) (fwdn t (2 ^ k) x)
        = fwdn t (2 ^ k) (evn t (2 ^ k) (r div 2) x)"
      by (intro less.IH) simp
    have c: "fwdn t (2 ^ k) (evn t (2 ^ k) (r div 2) x) < 2 * 2 ^ k"
      by (intro fwdn_closed evn_closed assms)
    show ?thesis
      by (subst (1 2) evn_rec) (simp add: ih addc_def fwdn_xor [OF c assms])
  qed
qed


lemma xsum_0: "xsum 0 s = False"
  by (simp add: xsum.simps)

lemma xsum_rec: "xsum r s = ((odd r \<and> s 0) \<noteq> xsum (r div 2) (\<lambda>i. s (Suc i)))"
proof (cases "r = 0")
  case True
  then show ?thesis by (simp add: xsum_0)
next
  case False
  then show ?thesis by (subst xsum.simps) simp
qed

lemma xsum_xor: "xsum (a XOR b) s = (xsum a s \<noteq> xsum b s)"
proof (induction a arbitrary: b s rule: less_induct)
  case (less a)
  show ?case
  proof (cases "a = 0")
    case True
    then show ?thesis by (simp add: xsum_0)
  next
    case False
    then have ih: "xsum (a div 2 XOR b div 2) (\<lambda>i. s (Suc i))
        = (xsum (a div 2) (\<lambda>i. s (Suc i)) \<noteq> xsum (b div 2) (\<lambda>i. s (Suc i)))"
      by (intro less.IH) simp
    have "drop_bit 1 (a XOR b) = drop_bit 1 a XOR drop_bit 1 b"
      by (rule drop_bit_xor)
    then have d: "(a XOR b) div 2 = a div 2 XOR b div 2"
      by (simp add: drop_bit_eq_div)
    show ?thesis
      using ih xsum_rec [of "a XOR b" s] xsum_rec [of a s] xsum_rec [of b s]
      by (auto simp: d even_xor_iff)
  qed
qed

lemma xsum_exp: "xsum (2 ^ m) s = s m"
proof (induction m arbitrary: s)
  case 0
  show ?case by (subst xsum_rec) (simp add: xsum_0)
next
  case (Suc m)
  show ?case by (subst xsum_rec) (simp add: Suc)
qed

lemma xsum_cong:
  "(\<And>i. bit r i \<Longrightarrow> s i = s' i) \<Longrightarrow> xsum r s = xsum r s'"
proof (induction r arbitrary: s s' rule: less_induct)
  case (less r)
  show ?case
  proof (cases "r = 0")
    case True
    then show ?thesis by (simp add: xsum_0)
  next
    case False
    have "xsum (r div 2) (\<lambda>i. s (Suc i)) = xsum (r div 2) (\<lambda>i. s' (Suc i))"
    proof (rule less.IH)
      show "r div 2 < r" using False by simp
    next
      fix i assume "bit (r div 2) i"
      then have "bit r (Suc i)" by (simp add: bit_Suc)
      then show "s (Suc i) = s' (Suc i)" by (rule less.prems)
    qed
    moreover have "odd r \<Longrightarrow> s 0 = s' 0"
      using less.prems [of 0] by (simp add: bit_0)
    ultimately show ?thesis
      using xsum_rec [of r s] xsum_rec [of r s'] by auto
  qed
qed

lemma parn_xsum: "parn (y AND t) = xsum t (\<lambda>i. bit y i)"
proof (induction t arbitrary: y rule: less_induct)
  case (less t)
  show ?case
  proof (cases "t = 0")
    case True
    then show ?thesis by (simp add: xsum_0 parn_0)
  next
    case False
    then have ih: "parn (y div 2 AND t div 2) = xsum (t div 2) (\<lambda>i. bit (y div 2) i)"
      by (intro less.IH) simp
    have "drop_bit 1 (y AND t) = drop_bit 1 y AND drop_bit 1 t"
      by (rule drop_bit_and)
    then have d: "(y AND t) div 2 = y div 2 AND t div 2"
      by (simp add: drop_bit_eq_div)
    show ?thesis
      using ih parn_rec [of "y AND t"] xsum_rec [of t "\<lambda>i. bit y i"]
      by (simp add: d even_and_iff bit_Suc bit_0) blast
  qed
qed

lemma funpow_closed:
  "x < 2 * 2 ^ k \<Longrightarrow> (fwdn t (2 ^ k) ^^ n) x < 2 * 2 ^ k"
  by (induction n) (simp_all add: fwdn_closed)

lemma outs_bit:
  assumes "x < 2 * 2 ^ k" "j \<le> k"
  shows "bit ((fwdn t (2 ^ k) ^^ n) x) j = outs t (2 ^ k) x (n + j)"
  using assms(2)
proof (induction j arbitrary: n)
  case 0
  show ?case by (simp add: outs_def)
next
  case (Suc j)
  then have j: "j < k" by simp
  have c: "(fwdn t (2 ^ k) ^^ n) x < 2 * 2 ^ k"
    using assms(1) by (rule funpow_closed)
  have "bit ((fwdn t (2 ^ k) ^^ Suc n) x) j = bit ((fwdn t (2 ^ k) ^^ n) x) (Suc j)"
    using j by (simp add: bit_fwdn [OF c])
  moreover have "bit ((fwdn t (2 ^ k) ^^ Suc n) x) j = outs t (2 ^ k) x (Suc n + j)"
    using j by (intro Suc.IH) simp
  ultimately show ?case by simp
qed

lemma outs_recurrence:
  assumes "x < 2 * 2 ^ k" "t < 2 * 2 ^ k"
  shows "outs t (2 ^ k) x (n + Suc k) = xsum t (\<lambda>i. outs t (2 ^ k) x (n + i))"
proof -
  have c: "(fwdn t (2 ^ k) ^^ n) x < 2 * 2 ^ k"
    using assms(1) by (rule funpow_closed)
  have top: "\<not> bit ((fwdn t (2 ^ k) ^^ n) x) (Suc k)"
    using small_nat_bit [of _ "Suc k" "Suc k"] c by simp
  have "outs t (2 ^ k) x (Suc n + k) = bit ((fwdn t (2 ^ k) ^^ Suc n) x) k"
    using outs_bit [OF assms(1), of k "Suc n"] by simp
  also have "\<dots> = parn ((fwdn t (2 ^ k) ^^ n) x AND t)"
    using top by (simp add: bit_fwdn [OF c])
  also have "\<dots> = xsum t (\<lambda>i. bit ((fwdn t (2 ^ k) ^^ n) x) i)"
    by (rule parn_xsum)
  also have "\<dots> = xsum t (\<lambda>i. outs t (2 ^ k) x (n + i))"
  proof (rule xsum_cong)
    fix i assume "bit t i"
    have "i \<le> k"
    proof (rule ccontr)
      assume "\<not> i \<le> k"
      then have "Suc k \<le> i" by simp
      then have "\<not> bit t i" using small_nat_bit [of t "Suc k" i] assms(2) by simp
      with \<open>bit t i\<close> show False by simp
    qed
    then show "bit ((fwdn t (2 ^ k) ^^ n) x) i = outs t (2 ^ k) x (n + i)"
      by (rule outs_bit [OF assms(1)])
  qed
  finally show ?thesis by simp
qed

lemma outs_fwdn: "outs t h (fwdn t h x) n = outs t h x (Suc n)"
  by (simp add: outs_def funpow_swap1)

lemma bit_evn:
  assumes "x < 2 * 2 ^ k" "j \<le> k"
  shows "bit (evn t (2 ^ k) r x) j = xsum r (\<lambda>i. outs t (2 ^ k) x (i + j))"
  using assms(1)
proof (induction r arbitrary: x rule: less_induct)
  case (less r)
  show ?case
  proof (cases "r = 0")
    case True
    then show ?thesis by (simp add: xsum_0 evn_0)
  next
    case False
    have fx: "fwdn t (2 ^ k) x < 2 * 2 ^ k"
      using less.prems by (rule fwdn_closed)
    have ih: "bit (evn t (2 ^ k) (r div 2) (fwdn t (2 ^ k) x)) j
        = xsum (r div 2) (\<lambda>i. outs t (2 ^ k) (fwdn t (2 ^ k) x) (i + j))"
      using False fx by (intro less.IH) simp_all
    have x0: "bit x j = outs t (2 ^ k) x j"
      using outs_bit [OF less.prems assms(2), of 0] by simp
    have "bit (evn t (2 ^ k) r x) j
        = ((odd r \<and> bit x j) \<noteq> bit (fwdn t (2 ^ k) (evn t (2 ^ k) (r div 2) x)) j)"
      by (subst evn_rec) (auto simp: addc_def bit_xor_iff)
    also have "fwdn t (2 ^ k) (evn t (2 ^ k) (r div 2) x)
        = evn t (2 ^ k) (r div 2) (fwdn t (2 ^ k) x)"
      using less.prems by (simp add: evn_fwdn)
    finally show ?thesis
      by (subst xsum_rec) (simp add: ih x0 outs_fwdn)
  qed
qed

lemma cayley_hamilton:
  assumes "x < 2 * 2 ^ k" "t < 2 * 2 ^ k"
  shows "evn t (2 ^ k) (2 * 2 ^ k + t) x = 0"
proof (rule bit_eqI)
  fix j
  have p: "2 * 2 ^ k + t = 2 ^ Suc k XOR t"
  proof -
    have "2 ^ Suc k AND t = 0"
    proof (rule bit_eqI)
      fix n
      have "\<not> bit t (Suc k)" using small_nat_bit [of t "Suc k" "Suc k"] assms(2) by simp
      then show "bit (2 ^ Suc k AND t) n = bit (0 :: nat) n"
        unfolding bit_and_iff bit_exp_iff by auto
    qed
    then have "2 ^ Suc k + t = 2 ^ Suc k XOR t"
      by (rule disjunctive_add_eq_xor)
    then show ?thesis by simp
  qed
  show "bit (evn t (2 ^ k) (2 * 2 ^ k + t) x) j = bit (0 :: nat) j"
  proof (cases "j \<le> k")
    case True
    have "bit (evn t (2 ^ k) (2 * 2 ^ k + t) x) j
        = (outs t (2 ^ k) x (Suc k + j) \<noteq> xsum t (\<lambda>i. outs t (2 ^ k) x (i + j)))"
      unfolding p by (simp only: bit_evn [OF assms(1) True] xsum_xor xsum_exp)
    also have "outs t (2 ^ k) x (Suc k + j) = xsum t (\<lambda>i. outs t (2 ^ k) x (i + j))"
      using outs_recurrence [OF assms, of j] by (simp add: ac_simps)
    finally show ?thesis by simp
  next
    case False
    then have "Suc k \<le> j" by simp
    then have "\<not> bit (evn t (2 ^ k) (2 * 2 ^ k + t) x) j"
      using small_nat_bit [of _ "Suc k" j] evn_closed [OF assms(1), of t "2 * 2 ^ k + t"] by simp
    then show ?thesis by simp
  qed
qed

lemma annihilated_fwdn:
  assumes "x < 2 * 2 ^ k" "evn t (2 ^ k) g x = 0"
  shows "evn t (2 ^ k) g (fwdn t (2 ^ k) x) = 0"
  by (simp add: evn_fwdn [OF assms(1)] assms(2) fwdn_0)

lemma annihilated_funpow:
  assumes "x < 2 * 2 ^ k" "evn t (2 ^ k) g x = 0"
  shows "evn t (2 ^ k) g ((fwdn t (2 ^ k) ^^ n) x) = 0"
  by (induction n) (simp_all add: assms annihilated_fwdn funpow_closed)

section \<open>Bit lists\<close>

lemma val_bound: "val xs < 2 ^ length xs"
  by (induction xs) (auto simp: of_bool_def)

lemma val_inj: "length xs = length ys \<Longrightarrow> val xs = val ys \<Longrightarrow> xs = ys"
proof (induction xs arbitrary: ys)
  case Nil
  then show ?case by simp
next
  case (Cons x xs)
  then obtain y ys' where ys: "ys = y # ys'" by (cases ys) auto
  from Cons.prems(2) have e: "of_bool x + 2 * val xs = (of_bool y :: nat) + 2 * val ys'"
    by (simp add: ys)
  then have "x = y" by (cases x; cases y; simp) presburger+
  with e have "val xs = val ys'" by simp
  with Cons ys \<open>x = y\<close> show ?case by simp
qed

lemma val_append: "val (xs @ [c]) = val xs + 2 ^ length xs * of_bool c"
  by (induction xs) (simp_all add: algebra_simps)

lemma xorb_eq: "xorb a b = (a \<noteq> b)"
  by (cases a; cases b; simp)

lemma xor_bit0:
  "(of_bool a + 2 * x) XOR (of_bool b + 2 * y) = of_bool (a \<noteq> b) + 2 * (x XOR y :: nat)"
  by (subst xor_rec) (cases a; cases b; simp)

lemma and_bit0:
  "(of_bool a + 2 * x) AND (of_bool b + 2 * y) = of_bool (a \<and> b) + 2 * (x AND y :: nat)"
  by (subst and_rec) (cases a; cases b; simp)

lemma val_xorl: "val (xorl xs ys) = val xs XOR val ys"
  by (induction xs ys rule: xorl.induct) (simp_all add: xorb_eq xor_bit0)

lemma length_xorl: "length xs = length ys \<Longrightarrow> length (xorl xs ys) = length ys"
  by (induction xs ys rule: xorl.induct) simp_all

lemma val_addcl: "val (addcl b c r) = (if b then val r XOR val c else val r)"
  by (cases b) (simp_all add: val_xorl)

lemma length_addcl: "length r = length c \<Longrightarrow> length (addcl b c r) = length c"
  by (cases b) (simp_all add: length_xorl)

lemma length_shiftin: "length (shiftin c r) = length r"
  by (induction r arbitrary: c) simp_all

lemma val_shiftin:
  "r \<noteq> [] \<Longrightarrow> val (shiftin c r) + 2 ^ length r * of_bool (lastb r) = of_bool c + 2 * val r"
proof (induction r arbitrary: c rule: lastb.induct)
  case 1
  then show ?case by simp
next
  case (2 x)
  show ?case by simp
next
  case (3 x y ys)
  have "val (shiftin x (y # ys)) + 2 ^ length (y # ys) * of_bool (lastb (y # ys))
      = of_bool x + 2 * val (y # ys)"
    by (rule 3) simp
  then show ?case by (simp add: algebra_simps)
qed

lemma val_zerol: "val (zerol G) = 0"
  by (induction G) simp_all

lemma length_zerol: "length (zerol G) = length G"
  by (induction G) simp_all

lemma val_onel: "G \<noteq> [] \<Longrightarrow> val (onel G) = 1"
  by (cases G) (simp_all add: val_zerol)

lemma length_onel: "length (onel G) = length G"
  by (cases G) (simp_all add: length_zerol)

lemma length_mulx: "length r = length G \<Longrightarrow> length (mulx G r) = length G"
  by (simp add: mulx_def length_addcl length_shiftin)

lemma length_mml: "length c = length G \<Longrightarrow> length (mml G a c) = length G"
  by (induction a) (simp_all add: length_zerol length_addcl length_mulx)

lemma length_pwl: "length (pwl G ns) = length G"
proof (induction ns)
  case Nil
  show ?case by (simp add: length_onel)
next
  case (Cons b ns)
  then show ?case by (cases b) (simp_all add: length_mml length_mulx)
qed

lemma zerop_val: "zerop xs \<Longrightarrow> val xs = 0"
  by (induction xs rule: zerop.induct) simp_all

lemma add_pow_xor:
  assumes "a < 2 ^ n"
  shows "a + 2 ^ n = a XOR (2 ^ n :: nat)"
proof -
  have "a AND 2 ^ n = 0"
  proof (rule bit_eqI)
    fix j
    have "\<not> bit a n" using small_nat_bit [OF assms, of n] by simp
    then show "bit (a AND 2 ^ n) j = bit (0 :: nat) j"
      unfolding bit_and_iff bit_exp_iff by auto
  qed
  then show ?thesis by (rule disjunctive_add_eq_xor)
qed

lemma val_mulx:
  assumes "length r = length G" "G \<noteq> []"
  shows "val (mulx G r) =
    (if lastb r then 2 * val r XOR (val G + 2 ^ length G) else 2 * val r)"
proof -
  have r: "r \<noteq> []" using assms by auto
  define s where "s = val (shiftin False r)"
  have s: "s + 2 ^ length G * of_bool (lastb r) = 2 * val r"
    using val_shiftin [OF r, of False] assms(1) by (simp add: s_def)
  have sb: "s < 2 ^ length G"
    using val_bound [of "shiftin False r"] assms(1) by (simp add: s_def length_shiftin)
  show ?thesis
  proof (cases "lastb r")
    case False
    then show ?thesis using s by (simp add: mulx_def s_def)
  next
    case True
    have "2 * val r = s XOR 2 ^ length G"
      using s True add_pow_xor [OF sb] by simp
    moreover have "val G + 2 ^ length G = val G XOR 2 ^ length G"
      by (rule add_pow_xor) (rule val_bound)
    ultimately have "2 * val r XOR (val G + 2 ^ length G) = s XOR val G"
      by (simp add: ac_simps flip: xor.assoc)
    then show ?thesis using True by (simp add: mulx_def s_def val_xorl)
  qed
qed

lemma evn_mulx:
  assumes "x < 2 * 2 ^ k" "evn t (2 ^ k) (val G + 2 ^ length G) x = 0"
    "length r = length G" "G \<noteq> []"
  shows "evn t (2 ^ k) (val (mulx G r)) x = fwdn t (2 ^ k) (evn t (2 ^ k) (val r) x)"
  by (simp add: val_mulx [OF assms(3,4)] evn_xor_poly [OF assms(1)] assms(2) evn_double)

lemma evn_Suc_double: "evn t h (Suc (2 * r)) x = fwdn t h (evn t h r x) XOR x"
  by (subst evn_rec) (simp add: addc_def)

lemma evn_cons:
  "evn t h (val (b # rs)) x = (if b then fwdn t h (evn t h (val rs) x) XOR x
     else fwdn t h (evn t h (val rs) x))"
  by (simp add: evn_Suc_double evn_double)

lemma evn_addcl:
  assumes "x < 2 * 2 ^ k"
  shows "evn t (2 ^ k) (val (addcl b c r)) x
    = (if b then evn t (2 ^ k) (val r) x XOR evn t (2 ^ k) (val c) x else evn t (2 ^ k) (val r) x)"
  by (simp add: val_addcl evn_xor_poly [OF assms])

lemma evn_zero_arg: "evn t (2 ^ k) c 0 = 0"
  using evn_xor_arg [of 0 k 0 t c] by simp

lemma evn_mml:
  assumes "x < 2 * 2 ^ k" "evn t (2 ^ k) (val G + 2 ^ length G) x = 0"
    "length c = length G" "G \<noteq> []"
  shows "evn t (2 ^ k) (val (mml G a c)) x = evn t (2 ^ k) (val a) (evn t (2 ^ k) (val c) x)"
proof (induction a)
  case Nil
  show ?case by (simp add: val_zerol evn_0)
next
  case (Cons b as)
  have l: "length (mml G as c) = length G" using assms(3) by (rule length_mml)
  show ?case
    by (simp add: evn_addcl [OF assms(1)] evn_mulx [OF assms(1,2) l assms(4)] Cons
        evn_Suc_double evn_double)
qed

lemma evn_clmull:
  assumes "x < 2 * 2 ^ k"
  shows "evn t (2 ^ k) (val (clmull a c)) x = evn t (2 ^ k) (val a) (evn t (2 ^ k) (val c) x)"
proof (induction a)
  case Nil
  show ?case by (simp add: evn_0)
next
  case (Cons b as)
  have "evn t (2 ^ k) (val (False # clmull as c)) x
      = fwdn t (2 ^ k) (evn t (2 ^ k) (val as) (evn t (2 ^ k) (val c) x))"
    by (simp only: evn_cons Cons if_False)
  then show ?case
    by (simp add: evn_addcl [OF assms] evn_Suc_double evn_double)
qed

lemma evn_pwl:
  assumes "x < 2 * 2 ^ k" "evn t (2 ^ k) (val G + 2 ^ length G) x = 0" "G \<noteq> []"
  shows "evn t (2 ^ k) (val (pwl G ns)) x = (fwdn t (2 ^ k) ^^ val ns) x"
  using assms(1,2)
proof (induction ns arbitrary: x)
  case Nil
  show ?case using evn_1 [of t "2 ^ k" x] by (simp add: val_onel [OF assms(3)])
next
  case (Cons b ns)
  let ?f = "fwdn t (2 ^ k)"
  let ?e = "evn t (2 ^ k)"
  define m where "m = val ns"
  define h where "h = pwl G ns"
  have lh: "length h = length G" by (simp add: h_def length_pwl)
  have h1: "?e (val h) x = (?f ^^ m) x"
    unfolding h_def m_def using Cons.prems by (rule Cons.IH)
  have zc: "(?f ^^ m) x < 2 * 2 ^ k" using Cons.prems(1) by (rule funpow_closed)
  have za: "?e (val G + 2 ^ length G) ((?f ^^ m) x) = 0"
    using Cons.prems by (rule annihilated_funpow)
  have h2: "?e (val h) ((?f ^^ m) x) = (?f ^^ m) ((?f ^^ m) x)"
    using zc za unfolding h_def m_def by (rule Cons.IH)
  have sq: "?e (val (mml G h h)) x = (?f ^^ (2 * m)) x"
    by (simp add: evn_mml [OF Cons.prems lh assms(3)] h1 h2 mult_2 funpow_add)
  have lm: "length (mml G h h) = length G" using lh by (rule length_mml)
  show ?case
  proof (cases b)
    case True
    then show ?thesis
      by (simp add: evn_mulx [OF Cons.prems lm assms(3)] sq flip: h_def m_def)
  next
    case False
    then show ?thesis by (simp add: sq flip: h_def m_def)
  qed
qed

lemma parl_parn: "parl xs ts = parn (val xs AND val ts)"
proof (induction xs ts rule: parl.induct)
  case (1 ts)
  show ?case by (simp add: parn_0)
next
  case (2 x xs)
  show ?case by (simp add: parn_0)
next
  case (3 x xs t ts)
  show ?case
    by (subst parn_rec) (simp add: 3 xorb_eq and_bit0)
qed

lemma length_fwdl: "length (fwdl T x) = length x"
  by (cases x) simp_all

lemma val_fwdl:
  assumes "length x = Suc k"
  shows "val (fwdl T x) = fwdn (val T) (2 ^ k) (val x)"
proof -
  obtain a xs where x: "x = a # xs" using assms by (cases x) auto
  then have l: "length xs = k" using assms by simp
  show ?thesis
    by (simp add: x val_append l fwdn_def parl_parn)
qed

lemma length_evl: "length (evl T r x) = length x"
  by (induction r) (simp_all add: length_zerol length_addcl length_fwdl)

lemma val_evl:
  assumes "length x = Suc k"
  shows "val (evl T r x) = evn (val T) (2 ^ k) (val r) (val x)"
proof (induction r)
  case Nil
  show ?case by (simp add: val_zerol evn_0)
next
  case (Cons b rs)
  have l: "length (evl T rs x) = Suc k" using assms by (simp add: length_evl)
  show ?case
    by (simp add: val_addcl val_fwdl [OF l] Cons evn_Suc_double evn_double)
qed

lemma evn_funpow:
  assumes "x < 2 * 2 ^ k"
  shows "evn t (2 ^ k) r ((fwdn t (2 ^ k) ^^ n) x) = (fwdn t (2 ^ k) ^^ n) (evn t (2 ^ k) r x)"
  by (induction n) (simp_all add: evn_fwdn funpow_closed assms)

section \<open>Certificates for the period of a register\<close>

lemma lfsr_cert:
  assumes lenT: "length T = Suc k" and lensd: "length sd = Suc k"
    and G: "G \<noteq> []"
    and fac: "zerop (xorl (clmull (G @ [True]) H) (T @ [True]))"
    and Y: "evl T H sd = Y"
    and one: "pwl G Eb = onel G"
  shows "(fwdn (val T) (2 ^ k) ^^ val Eb) (val Y) = val Y"
    and "\<And>nb. evl T (pwl G nb) Y \<noteq> Y \<Longrightarrow> (fwdn (val T) (2 ^ k) ^^ val nb) (val Y) \<noteq> val Y"
    and "\<And>n. (fwdn (val T) (2 ^ k) ^^ n) (val sd) = val sd
          \<Longrightarrow> (fwdn (val T) (2 ^ k) ^^ n) (val Y) = val Y"
proof -
  let ?f = "fwdn (val T) (2 ^ k)"
  let ?e = "evn (val T) (2 ^ k)"
  have t: "val T < 2 * 2 ^ k" using val_bound [of T] lenT by simp
  have x: "val sd < 2 * 2 ^ k" using val_bound [of sd] lensd by simp
  have yv: "val Y = ?e (val H) (val sd)"
    using val_evl [OF lensd, of T H] Y by simp
  have y: "val Y < 2 * 2 ^ k" unfolding yv using x by (rule evn_closed)
  have lenY: "length Y = Suc k" using length_evl [of T H sd] Y lensd by simp
  have "val (clmull (G @ [True]) H) XOR val (T @ [True]) = 0"
    using zerop_val [OF fac] by (simp add: val_xorl)
  then have "val (clmull (G @ [True]) H) = val (T @ [True])"
    by (metis xor_self_eq xor.assoc xor.right_neutral)
  then have p: "val (clmull (G @ [True]) H) = 2 * 2 ^ k + val T"
    by (simp add: val_append lenT)
  have "?e (val G + 2 ^ length G) (val Y) = ?e (val (clmull (G @ [True]) H)) (val sd)"
    unfolding yv by (simp add: evn_clmull [OF x] val_append)
  also have "\<dots> = 0" unfolding p using x t by (rule cayley_hamilton)
  finally have ann: "?e (val G + 2 ^ length G) (val Y) = 0" .
  have pw: "?e (val (pwl G ns)) (val Y) = (?f ^^ val ns) (val Y)" for ns
    using y ann G by (rule evn_pwl)
  show "(?f ^^ val Eb) (val Y) = val Y"
    using pw [of Eb] evn_1 [of "val T" "2 ^ k" "val Y"] by (simp add: one val_onel [OF G])
  show "(?f ^^ val nb) (val Y) \<noteq> val Y" if ne: "evl T (pwl G nb) Y \<noteq> Y" for nb
  proof
    assume "(?f ^^ val nb) (val Y) = val Y"
    then have "val (evl T (pwl G nb) Y) = val Y"
      by (simp add: val_evl [OF lenY] pw)
    moreover have "length (evl T (pwl G nb) Y) = length Y" by (rule length_evl)
    ultimately have "evl T (pwl G nb) Y = Y" by (rule val_inj [rotated])
    with ne show False by simp
  qed
  show "(?f ^^ n) (val Y) = val Y" if "(?f ^^ n) (val sd) = val sd" for n
    unfolding yv using that evn_funpow [OF x, of "val T" "val H" n] by simp
qed

section \<open>Periods\<close>

lemma funpow_multiple:
  assumes "(F ^^ T) y = y"
  shows "(F ^^ (T * c)) y = y"
  by (induction c) (simp_all add: funpow_add assms)

lemma least_period:
  assumes "0 < E" "(F ^^ E) y = (y :: 'a)"
  obtains T :: nat where "0 < T" "(F ^^ T) y = y" "\<And>n. (F ^^ n) y = y \<Longrightarrow> T dvd n"
proof -
  define T where "T = (LEAST n. 0 < n \<and> (F ^^ n) y = y)"
  have ex: "0 < E \<and> (F ^^ E) y = y" using assms by simp
  from LeastI [of "\<lambda>n. 0 < n \<and> (F ^^ n) y = y", OF ex]
  have T: "0 < T" "(F ^^ T) y = y" by (simp_all add: T_def)
  have le: "T \<le> n" if "0 < n" "(F ^^ n) y = y" for n
    unfolding T_def using that by (intro Least_le) simp
  have "T dvd n" if n: "(F ^^ n) y = y" for n
  proof -
    have "n = n mod T + T * (n div T)" by simp
    then have "(F ^^ n) y = (F ^^ (n mod T)) ((F ^^ (T * (n div T))) y)"
      by (metis funpow_add o_apply)
    then have r: "(F ^^ (n mod T)) y = y"
      using n funpow_multiple [OF T(2)] by simp
    have "n mod T = 0"
    proof (rule ccontr)
      assume "n mod T \<noteq> 0"
      then have "T \<le> n mod T" using r by (intro le) simp_all
      moreover have "n mod T < T" using T(1) by simp
      ultimately show False by simp
    qed
    then show ?thesis by (simp add: dvd_eq_mod_eq_0)
  qed
  with T show ?thesis by (rule that)
qed

lemma prime_power_coprime:
  assumes "is_prime q" "\<not> q dvd m"
  shows "coprime (q ^ e) m"
proof -
  have "coprime q m"
  proof (rule coprimeI)
    fix c assume "c dvd q" "c dvd m"
    then have "c = 1 \<or> c = q" using assms(1) by (simp add: is_prime_def)
    with \<open>c dvd m\<close> assms(2) show "is_unit c" by auto
  qed
  then show ?thesis by (simp add: coprime_power_left_iff)
qed

lemma period_prime_power:
  assumes T: "(F ^^ T) y = y" "\<And>n. (F ^^ n) y = y \<Longrightarrow> T dvd n"
    and E: "(F ^^ E) y = y"
    and q: "is_prime q" "E = q ^ e * c'" "E = q * n" "(F ^^ n) y \<noteq> y"
    and m: "m dvd T" "\<not> q dvd m"
  shows "q ^ e * m dvd T"
proof -
  have TE: "T dvd E" using E by (rule T(2))
  then obtain c where c: "E = T * c" by (auto simp: dvd_def)
  have q0: "0 < q" using q(1) by (simp add: is_prime_def)
  have "\<not> q dvd c"
  proof
    assume "q dvd c"
    then obtain d where "c = q * d" by (auto simp: dvd_def)
    then have "E = q * (T * d)" by (simp add: c)
    with q(3) have "q * n = q * (T * d)" by metis
    then have "n = T * d" using q0 by simp
    then have "(F ^^ n) y = y" using funpow_multiple [OF T(1)] by simp
    with q(4) show False by simp
  qed
  then have "coprime (q ^ e) c" using q(1) by (intro prime_power_coprime)
  moreover have "q ^ e dvd T * c" using q(2) c by (metis dvd_triv_left)
  ultimately have "q ^ e dvd T"
    by (simp add: coprime_dvd_mult_left_iff)
  moreover have "coprime (q ^ e) m" using q(1) m(2) by (rule prime_power_coprime)
  ultimately show ?thesis using m(1) by (intro divides_mult)
qed

lemma period_lower_bound:
  assumes "\<And>n. (F ^^ n) y = y \<Longrightarrow> T dvd n" "m dvd T" "0 < n" "n < m"
  shows "(F ^^ n) (y :: 'a) \<noteq> y"
proof
  assume "(F ^^ n) y = y"
  then have "T dvd n" by (rule assms(1))
  then have "m dvd n" using assms(2) by (rule dvd_trans [rotated])
  then have "m \<le> n" using assms(3) by (intro dvd_imp_le) simp_all
  with assms(4) show False by simp
qed

section \<open>Primes by trial division\<close>

lemma chk_sound:
  assumes "chk p d qs" "1 < p" "2 \<le> d" "\<And>e. 2 \<le> e \<Longrightarrow> e < d \<Longrightarrow> \<not> e dvd p"
  shows "is_prime p"
  using assms
proof (induction qs arbitrary: d)
  case Nil
  then have small: "p < d * d" by simp
  show ?case
    unfolding is_prime_def
  proof (intro conjI allI impI)
    show "1 < p" by (rule Nil.prems)
  next
    fix c assume c: "c dvd p"
    then obtain c' where p: "p = c * c'" by (auto simp: dvd_def)
    have pos: "0 < c" "0 < c'" using p Nil.prems(2) by (cases c; cases c'; simp)+
    show "c = 1 \<or> c = p"
    proof (rule ccontr)
      assume n: "\<not> (c = 1 \<or> c = p)"
      then have c2: "2 \<le> c" using pos by simp
      have c'2: "2 \<le> c'" using n p pos by (cases "c' = 1") simp_all
      have "\<not> c dvd p \<or> \<not> c' dvd p"
      proof (cases "c < d")
        case True
        then show ?thesis using Nil.prems(4) c2 by simp
      next
        case False
        then have dc: "d \<le> c" by simp
        have "c' < d"
        proof (rule ccontr)
          assume "\<not> c' < d"
          then have "d * d \<le> c * c'" using dc by (intro mult_mono) simp_all
          with small p show False by simp
        qed
        then show ?thesis using Nil.prems(4) c'2 by simp
      qed
      then show False using p by simp
    qed
  qed
next
  case (Cons q qs)
  then have lo: "q * d < p" and hi: "p < q * d + d" and rest: "chk p (d + 1) qs"
    by simp_all
  have nd: "\<not> d dvd p"
  proof
    assume "d dvd p"
    then obtain c where p: "p = d * c" by (auto simp: dvd_def)
    have "q < c" using lo p by (simp add: mult.commute)
    moreover have "c < q + 1"
    proof -
      have "d * c < d * (q + 1)" using hi p by (simp add: algebra_simps)
      then show ?thesis by (metis mult_less_cancel1)
    qed
    ultimately show False by simp
  qed
  show ?case
  proof (rule Cons.IH [OF rest Cons.prems(2)])
    show "2 \<le> d + 1" using Cons.prems(3) by simp
  next
    fix e assume "2 \<le> e" "e < d + 1"
    then show "\<not> e dvd p"
      using Cons.prems(4) [of e] nd by (cases "e = d") auto
  qed
qed

lemma is_prime_chk: "1 < p \<Longrightarrow> chk p 2 qs \<Longrightarrow> is_prime p"
  by (rule chk_sound [where d = 2]) auto

section \<open>Orders of the registers of the catalog\<close>

text \<open>
  For each tap mask and seed of the catalog, the register does not come back to the
  seed in fewer steps than the format is long: the period of the seed's image under the
  cofactor divides every number of steps after which the seed comes back, and it is a
  multiple of each prime power of the order for which the quotient of the order by the
  prime does not bring the image back.
\<close>

lemma prime_3: "is_prime 3"
  by (rule is_prime_chk [where qs = "
      []"])
    simp_all

lemma prime_5: "is_prime 5"
  by (rule is_prime_chk [where qs = "
      [2]"])
    simp_all

lemma prime_11: "is_prime 11"
  by (rule is_prime_chk [where qs = "
      [5, 3]"])
    simp_all

lemma prime_23: "is_prime 23"
  by (rule is_prime_chk [where qs = "
      [11, 7, 5]"])
    simp_all

lemma prime_31: "is_prime 31"
  by (rule is_prime_chk [where qs = "
      [15, 10, 7, 6]"])
    simp_all

lemma prime_41: "is_prime 41"
  by (rule is_prime_chk [where qs = "
      [20, 13, 10, 8, 6]"])
    simp_all

lemma prime_47: "is_prime 47"
  by (rule is_prime_chk [where qs = "
      [23, 15, 11, 9, 7]"])
    simp_all

lemma prime_89: "is_prime 89"
  by (rule is_prime_chk [where qs = "
      [44, 29, 22, 17, 14, 12, 11, 9]"])
    simp_all

lemma prime_257: "is_prime 257"
  by (rule is_prime_chk [where qs = "
      [128, 85, 64, 51, 42, 36, 32, 28, 25, 23, 21, 19, 18, 17, 16]"])
    simp_all

lemma prime_683: "is_prime 683"
  by (rule is_prime_chk [where qs = "
      [341, 227, 170, 136, 113, 97, 85, 75, 68, 62, 56, 52, 48, 45, 42, 40, 37, 35, 34, 32,
      31, 29, 28, 27, 26]"])
    simp_all

lemma prime_65537: "is_prime 65537"
  by (rule is_prime_chk [where qs = "
      [32768, 21845, 16384, 13107, 10922, 9362, 8192, 7281, 6553, 5957, 5461, 5041, 4681,
      4369, 4096, 3855, 3640, 3449, 3276, 3120, 2978, 2849, 2730, 2621, 2520, 2427, 2340,
      2259, 2184, 2114, 2048, 1985, 1927, 1872, 1820, 1771, 1724, 1680, 1638, 1598, 1560,
      1524, 1489, 1456, 1424, 1394, 1365, 1337, 1310, 1285, 1260, 1236, 1213, 1191, 1170,
      1149, 1129, 1110, 1092, 1074, 1057, 1040, 1024, 1008, 992, 978, 963, 949, 936, 923, 910,
      897, 885, 873, 862, 851, 840, 829, 819, 809, 799, 789, 780, 771, 762, 753, 744, 736,
      728, 720, 712, 704, 697, 689, 682, 675, 668, 661, 655, 648, 642, 636, 630, 624, 618,
      612, 606, 601, 595, 590, 585, 579, 574, 569, 564, 560, 555, 550, 546, 541, 537, 532,
      528, 524, 520, 516, 512, 508, 504, 500, 496, 492, 489, 485, 481, 478, 474, 471, 468,
      464, 461, 458, 455, 451, 448, 445, 442, 439, 436, 434, 431, 428, 425, 422, 420, 417,
      414, 412, 409, 407, 404, 402, 399, 397, 394, 392, 390, 387, 385, 383, 381, 378, 376,
      374, 372, 370, 368, 366, 364, 362, 360, 358, 356, 354, 352, 350, 348, 346, 344, 343,
      341, 339, 337, 336, 334, 332, 330, 329, 327, 326, 324, 322, 321, 319, 318, 316, 315,
      313, 312, 310, 309, 307, 306, 304, 303, 302, 300, 299, 297, 296, 295, 293, 292, 291,
      289, 288, 287, 286, 284, 283, 282, 281, 280, 278, 277, 276, 275, 274, 273, 271, 270,
      269, 268, 267, 266, 265, 264, 263, 262, 261, 260, 259, 258, 257, 256]"])
    simp_all

lemma prime_178481: "is_prime 178481"
  by (rule is_prime_chk [where qs = "
      [89240, 59493, 44620, 35696, 29746, 25497, 22310, 19831, 17848, 16225, 14873, 13729,
      12748, 11898, 11155, 10498, 9915, 9393, 8924, 8499, 8112, 7760, 7436, 7139, 6864, 6610,
      6374, 6154, 5949, 5757, 5577, 5408, 5249, 5099, 4957, 4823, 4696, 4576, 4462, 4353,
      4249, 4150, 4056, 3966, 3880, 3797, 3718, 3642, 3569, 3499, 3432, 3367, 3305, 3245,
      3187, 3131, 3077, 3025, 2974, 2925, 2878, 2833, 2788, 2745, 2704, 2663, 2624, 2586,
      2549, 2513, 2478, 2444, 2411, 2379, 2348, 2317, 2288, 2259, 2231, 2203, 2176, 2150,
      2124, 2099, 2075, 2051, 2028, 2005, 1983, 1961, 1940, 1919, 1898, 1878, 1859, 1840,
      1821, 1802, 1784, 1767, 1749, 1732, 1716, 1699, 1683, 1668, 1652, 1637, 1622, 1607,
      1593, 1579, 1565, 1552, 1538, 1525, 1512, 1499, 1487, 1475, 1462, 1451, 1439, 1427,
      1416, 1405, 1394, 1383, 1372, 1362, 1352, 1341, 1331, 1322, 1312, 1302, 1293, 1284,
      1274, 1265, 1256, 1248, 1239, 1230, 1222, 1214, 1205, 1197, 1189, 1181, 1174, 1166,
      1158, 1151, 1144, 1136, 1129, 1122, 1115, 1108, 1101, 1094, 1088, 1081, 1075, 1068,
      1062, 1056, 1049, 1043, 1037, 1031, 1025, 1019, 1014, 1008, 1002, 997, 991, 986, 980,
      975, 970, 964, 959, 954, 949, 944, 939, 934, 929, 924, 920, 915, 910, 905, 901, 896,
      892, 887, 883, 879, 874, 870, 866, 862, 858, 853, 849, 845, 841, 837, 834, 830, 826,
      822, 818, 814, 811, 807, 803, 800, 796, 793, 789, 786, 782, 779, 776, 772, 769, 766,
      762, 759, 756, 753, 749, 746, 743, 740, 737, 734, 731, 728, 725, 722, 719, 716, 713,
      711, 708, 705, 702, 699, 697, 694, 691, 689, 686, 683, 681, 678, 676, 673, 670, 668,
      665, 663, 661, 658, 656, 653, 651, 649, 646, 644, 642, 639, 637, 635, 632, 630, 628,
      626, 624, 621, 619, 617, 615, 613, 611, 609, 607, 605, 602, 600, 598, 596, 594, 592,
      590, 589, 587, 585, 583, 581, 579, 577, 575, 573, 572, 570, 568, 566, 564, 563, 561,
      559, 557, 556, 554, 552, 550, 549, 547, 545, 544, 542, 540, 539, 537, 535, 534, 532,
      531, 529, 528, 526, 524, 523, 521, 520, 518, 517, 515, 514, 512, 511, 509, 508, 507,
      505, 504, 502, 501, 499, 498, 497, 495, 494, 493, 491, 490, 488, 487, 486, 485, 483,
      482, 481, 479, 478, 477, 475, 474, 473, 472, 470, 469, 468, 467, 466, 464, 463, 462,
      461, 460, 458, 457, 456, 455, 454, 452, 451, 450, 449, 448, 447, 446, 445, 443, 442,
      441, 440, 439, 438, 437, 436, 435, 434, 433, 432, 431, 430, 429, 428, 426, 425, 424,
      423, 422]"])
    simp_all

lemma no_wrap_serato_2a:
  assumes "0 < n" "n < 712000"
  shows "(fwdn 221669 (2 ^ 19) ^^ n) 364567 \<noteq> 364567"
proof -
  let ?F = "fwdn (val taps_serato_2a) (2 ^ 19)"
  have vT: "val taps_serato_2a = 221669" by (simp add: taps_serato_2a_def)
  have vs: "val seed_serato_2a = 364567" by (simp add: seed_serato_2a_def)
  have l1: "length taps_serato_2a = Suc 19" by (simp add: taps_serato_2a_def)
  have l2: "length seed_serato_2a = Suc 19" by (simp add: seed_serato_2a_def)
  have g: "factor_serato_2a \<noteq> []" by (simp add: factor_serato_2a_def)
  have fac: "zerop (xorl (clmull (factor_serato_2a @ [True]) cofactor_serato_2a) (taps_serato_2a @ [True]))" by code_simp
  have Y: "evl taps_serato_2a cofactor_serato_2a seed_serato_2a = image_serato_2a" by code_simp
  have one: "pwl factor_serato_2a order_20 = onel factor_serato_2a" by code_simp
  note c = lfsr_cert [OF l1 l2 g fac Y one]
  have vE: "val order_20 = 1048575" by (simp add: order_20_def)
  have E: "(?F ^^ 1048575) (val image_serato_2a) = val image_serato_2a" using c(1) by (simp only: vE)
  obtain P where P: "(?F ^^ P) (val image_serato_2a) = val image_serato_2a"
    "\<And>n. (?F ^^ n) (val image_serato_2a) = val image_serato_2a \<Longrightarrow> P dvd n"
    by (rule least_period [OF _ E]) simp_all
  have d0: "1 dvd P" by simp
  have a1: "(1048575::nat) = 3 ^ 1 * 349525" by simp
  have b1: "1048575 = 3 * val order_20_div_3" by (simp add: order_20_div_3_def)
  have n1: "evl taps_serato_2a (pwl factor_serato_2a order_20_div_3) image_serato_2a \<noteq> image_serato_2a" by code_simp
  have m1: "\<not> 3 dvd (1 :: nat)" by simp
  have d1: "3 ^ 1 * 1 dvd P"
    by (rule period_prime_power [OF P E prime_3 a1 b1 c(2) [OF n1] d0 m1])
  have a2: "(1048575::nat) = 5 ^ 2 * 41943" by simp
  have b2: "1048575 = 5 * val order_20_div_5" by (simp add: order_20_div_5_def)
  have n2: "evl taps_serato_2a (pwl factor_serato_2a order_20_div_5) image_serato_2a \<noteq> image_serato_2a" by code_simp
  have m2: "\<not> 5 dvd (3 ^ 1 * 1 :: nat)" by simp
  have d2: "5 ^ 2 * (3 ^ 1 * 1) dvd P"
    by (rule period_prime_power [OF P E prime_5 a2 b2 c(2) [OF n2] d1 m2])
  have a3: "(1048575::nat) = 11 ^ 1 * 95325" by simp
  have b3: "1048575 = 11 * val order_20_div_11" by (simp add: order_20_div_11_def)
  have n3: "evl taps_serato_2a (pwl factor_serato_2a order_20_div_11) image_serato_2a \<noteq> image_serato_2a" by code_simp
  have m3: "\<not> 11 dvd (5 ^ 2 * (3 ^ 1 * 1) :: nat)" by simp
  have d3: "11 ^ 1 * (5 ^ 2 * (3 ^ 1 * 1)) dvd P"
    by (rule period_prime_power [OF P E prime_11 a3 b3 c(2) [OF n3] d2 m3])
  have a4: "(1048575::nat) = 31 ^ 1 * 33825" by simp
  have b4: "1048575 = 31 * val order_20_div_31" by (simp add: order_20_div_31_def)
  have n4: "evl taps_serato_2a (pwl factor_serato_2a order_20_div_31) image_serato_2a \<noteq> image_serato_2a" by code_simp
  have m4: "\<not> 31 dvd (11 ^ 1 * (5 ^ 2 * (3 ^ 1 * 1)) :: nat)" by simp
  have d4: "31 ^ 1 * (11 ^ 1 * (5 ^ 2 * (3 ^ 1 * 1))) dvd P"
    by (rule period_prime_power [OF P E prime_31 a4 b4 c(2) [OF n4] d3 m4])
  have a5: "(1048575::nat) = 41 ^ 1 * 25575" by simp
  have b5: "1048575 = 41 * val order_20_div_41" by (simp add: order_20_div_41_def)
  have n5: "evl taps_serato_2a (pwl factor_serato_2a order_20_div_41) image_serato_2a \<noteq> image_serato_2a" by code_simp
  have m5: "\<not> 41 dvd (31 ^ 1 * (11 ^ 1 * (5 ^ 2 * (3 ^ 1 * 1))) :: nat)" by simp
  have d5: "41 ^ 1 * (31 ^ 1 * (11 ^ 1 * (5 ^ 2 * (3 ^ 1 * 1)))) dvd P"
    by (rule period_prime_power [OF P E prime_41 a5 b5 c(2) [OF n5] d4 m5])
  have nb: "n < 41 ^ 1 * (31 ^ 1 * (11 ^ 1 * (5 ^ 2 * (3 ^ 1 * 1))))" using assms(2) by simp
  have "(?F ^^ n) (val image_serato_2a) \<noteq> val image_serato_2a"
    by (rule period_lower_bound [OF P(2) d5 assms(1) nb])
  then have "(?F ^^ n) (val seed_serato_2a) \<noteq> val seed_serato_2a"
    by (rule contrapos_nn) (rule c(3))
  then show ?thesis unfolding vT vs .
qed

lemma no_wrap_serato_2b:
  assumes "0 < n" "n < 922000"
  shows "(fwdn 323801 (2 ^ 19) ^^ n) 586694 \<noteq> 586694"
proof -
  let ?F = "fwdn (val taps_serato_2b) (2 ^ 19)"
  have vT: "val taps_serato_2b = 323801" by (simp add: taps_serato_2b_def)
  have vs: "val seed_serato_2b = 586694" by (simp add: seed_serato_2b_def)
  have l1: "length taps_serato_2b = Suc 19" by (simp add: taps_serato_2b_def)
  have l2: "length seed_serato_2b = Suc 19" by (simp add: seed_serato_2b_def)
  have g: "factor_serato_2b \<noteq> []" by (simp add: factor_serato_2b_def)
  have fac: "zerop (xorl (clmull (factor_serato_2b @ [True]) cofactor_serato_2b) (taps_serato_2b @ [True]))" by code_simp
  have Y: "evl taps_serato_2b cofactor_serato_2b seed_serato_2b = image_serato_2b" by code_simp
  have one: "pwl factor_serato_2b order_20 = onel factor_serato_2b" by code_simp
  note c = lfsr_cert [OF l1 l2 g fac Y one]
  have vE: "val order_20 = 1048575" by (simp add: order_20_def)
  have E: "(?F ^^ 1048575) (val image_serato_2b) = val image_serato_2b" using c(1) by (simp only: vE)
  obtain P where P: "(?F ^^ P) (val image_serato_2b) = val image_serato_2b"
    "\<And>n. (?F ^^ n) (val image_serato_2b) = val image_serato_2b \<Longrightarrow> P dvd n"
    by (rule least_period [OF _ E]) simp_all
  have d0: "1 dvd P" by simp
  have a1: "(1048575::nat) = 3 ^ 1 * 349525" by simp
  have b1: "1048575 = 3 * val order_20_div_3" by (simp add: order_20_div_3_def)
  have n1: "evl taps_serato_2b (pwl factor_serato_2b order_20_div_3) image_serato_2b \<noteq> image_serato_2b" by code_simp
  have m1: "\<not> 3 dvd (1 :: nat)" by simp
  have d1: "3 ^ 1 * 1 dvd P"
    by (rule period_prime_power [OF P E prime_3 a1 b1 c(2) [OF n1] d0 m1])
  have a2: "(1048575::nat) = 5 ^ 2 * 41943" by simp
  have b2: "1048575 = 5 * val order_20_div_5" by (simp add: order_20_div_5_def)
  have n2: "evl taps_serato_2b (pwl factor_serato_2b order_20_div_5) image_serato_2b \<noteq> image_serato_2b" by code_simp
  have m2: "\<not> 5 dvd (3 ^ 1 * 1 :: nat)" by simp
  have d2: "5 ^ 2 * (3 ^ 1 * 1) dvd P"
    by (rule period_prime_power [OF P E prime_5 a2 b2 c(2) [OF n2] d1 m2])
  have a3: "(1048575::nat) = 11 ^ 1 * 95325" by simp
  have b3: "1048575 = 11 * val order_20_div_11" by (simp add: order_20_div_11_def)
  have n3: "evl taps_serato_2b (pwl factor_serato_2b order_20_div_11) image_serato_2b \<noteq> image_serato_2b" by code_simp
  have m3: "\<not> 11 dvd (5 ^ 2 * (3 ^ 1 * 1) :: nat)" by simp
  have d3: "11 ^ 1 * (5 ^ 2 * (3 ^ 1 * 1)) dvd P"
    by (rule period_prime_power [OF P E prime_11 a3 b3 c(2) [OF n3] d2 m3])
  have a4: "(1048575::nat) = 31 ^ 1 * 33825" by simp
  have b4: "1048575 = 31 * val order_20_div_31" by (simp add: order_20_div_31_def)
  have n4: "evl taps_serato_2b (pwl factor_serato_2b order_20_div_31) image_serato_2b \<noteq> image_serato_2b" by code_simp
  have m4: "\<not> 31 dvd (11 ^ 1 * (5 ^ 2 * (3 ^ 1 * 1)) :: nat)" by simp
  have d4: "31 ^ 1 * (11 ^ 1 * (5 ^ 2 * (3 ^ 1 * 1))) dvd P"
    by (rule period_prime_power [OF P E prime_31 a4 b4 c(2) [OF n4] d3 m4])
  have a5: "(1048575::nat) = 41 ^ 1 * 25575" by simp
  have b5: "1048575 = 41 * val order_20_div_41" by (simp add: order_20_div_41_def)
  have n5: "evl taps_serato_2b (pwl factor_serato_2b order_20_div_41) image_serato_2b \<noteq> image_serato_2b" by code_simp
  have m5: "\<not> 41 dvd (31 ^ 1 * (11 ^ 1 * (5 ^ 2 * (3 ^ 1 * 1))) :: nat)" by simp
  have d5: "41 ^ 1 * (31 ^ 1 * (11 ^ 1 * (5 ^ 2 * (3 ^ 1 * 1)))) dvd P"
    by (rule period_prime_power [OF P E prime_41 a5 b5 c(2) [OF n5] d4 m5])
  have nb: "n < 41 ^ 1 * (31 ^ 1 * (11 ^ 1 * (5 ^ 2 * (3 ^ 1 * 1))))" using assms(2) by simp
  have "(?F ^^ n) (val image_serato_2b) \<noteq> val image_serato_2b"
    by (rule period_lower_bound [OF P(2) d5 assms(1) nb])
  then have "(?F ^^ n) (val seed_serato_2b) \<noteq> val seed_serato_2b"
    by (rule contrapos_nn) (rule c(3))
  then show ?thesis unfolding vT vs .
qed

lemma no_wrap_serato_cd:
  assumes "0 < n" "n < 950000"
  shows "(fwdn 216405 (2 ^ 19) ^^ n) 887616 \<noteq> 887616"
proof -
  let ?F = "fwdn (val taps_serato_cd) (2 ^ 19)"
  have vT: "val taps_serato_cd = 216405" by (simp add: taps_serato_cd_def)
  have vs: "val seed_serato_cd = 887616" by (simp add: seed_serato_cd_def)
  have l1: "length taps_serato_cd = Suc 19" by (simp add: taps_serato_cd_def)
  have l2: "length seed_serato_cd = Suc 19" by (simp add: seed_serato_cd_def)
  have g: "factor_serato_cd \<noteq> []" by (simp add: factor_serato_cd_def)
  have fac: "zerop (xorl (clmull (factor_serato_cd @ [True]) cofactor_serato_cd) (taps_serato_cd @ [True]))" by code_simp
  have Y: "evl taps_serato_cd cofactor_serato_cd seed_serato_cd = image_serato_cd" by code_simp
  have one: "pwl factor_serato_cd order_20 = onel factor_serato_cd" by code_simp
  note c = lfsr_cert [OF l1 l2 g fac Y one]
  have vE: "val order_20 = 1048575" by (simp add: order_20_def)
  have E: "(?F ^^ 1048575) (val image_serato_cd) = val image_serato_cd" using c(1) by (simp only: vE)
  obtain P where P: "(?F ^^ P) (val image_serato_cd) = val image_serato_cd"
    "\<And>n. (?F ^^ n) (val image_serato_cd) = val image_serato_cd \<Longrightarrow> P dvd n"
    by (rule least_period [OF _ E]) simp_all
  have d0: "1 dvd P" by simp
  have a1: "(1048575::nat) = 3 ^ 1 * 349525" by simp
  have b1: "1048575 = 3 * val order_20_div_3" by (simp add: order_20_div_3_def)
  have n1: "evl taps_serato_cd (pwl factor_serato_cd order_20_div_3) image_serato_cd \<noteq> image_serato_cd" by code_simp
  have m1: "\<not> 3 dvd (1 :: nat)" by simp
  have d1: "3 ^ 1 * 1 dvd P"
    by (rule period_prime_power [OF P E prime_3 a1 b1 c(2) [OF n1] d0 m1])
  have a2: "(1048575::nat) = 5 ^ 2 * 41943" by simp
  have b2: "1048575 = 5 * val order_20_div_5" by (simp add: order_20_div_5_def)
  have n2: "evl taps_serato_cd (pwl factor_serato_cd order_20_div_5) image_serato_cd \<noteq> image_serato_cd" by code_simp
  have m2: "\<not> 5 dvd (3 ^ 1 * 1 :: nat)" by simp
  have d2: "5 ^ 2 * (3 ^ 1 * 1) dvd P"
    by (rule period_prime_power [OF P E prime_5 a2 b2 c(2) [OF n2] d1 m2])
  have a3: "(1048575::nat) = 11 ^ 1 * 95325" by simp
  have b3: "1048575 = 11 * val order_20_div_11" by (simp add: order_20_div_11_def)
  have n3: "evl taps_serato_cd (pwl factor_serato_cd order_20_div_11) image_serato_cd \<noteq> image_serato_cd" by code_simp
  have m3: "\<not> 11 dvd (5 ^ 2 * (3 ^ 1 * 1) :: nat)" by simp
  have d3: "11 ^ 1 * (5 ^ 2 * (3 ^ 1 * 1)) dvd P"
    by (rule period_prime_power [OF P E prime_11 a3 b3 c(2) [OF n3] d2 m3])
  have a4: "(1048575::nat) = 31 ^ 1 * 33825" by simp
  have b4: "1048575 = 31 * val order_20_div_31" by (simp add: order_20_div_31_def)
  have n4: "evl taps_serato_cd (pwl factor_serato_cd order_20_div_31) image_serato_cd \<noteq> image_serato_cd" by code_simp
  have m4: "\<not> 31 dvd (11 ^ 1 * (5 ^ 2 * (3 ^ 1 * 1)) :: nat)" by simp
  have d4: "31 ^ 1 * (11 ^ 1 * (5 ^ 2 * (3 ^ 1 * 1))) dvd P"
    by (rule period_prime_power [OF P E prime_31 a4 b4 c(2) [OF n4] d3 m4])
  have a5: "(1048575::nat) = 41 ^ 1 * 25575" by simp
  have b5: "1048575 = 41 * val order_20_div_41" by (simp add: order_20_div_41_def)
  have n5: "evl taps_serato_cd (pwl factor_serato_cd order_20_div_41) image_serato_cd \<noteq> image_serato_cd" by code_simp
  have m5: "\<not> 41 dvd (31 ^ 1 * (11 ^ 1 * (5 ^ 2 * (3 ^ 1 * 1))) :: nat)" by simp
  have d5: "41 ^ 1 * (31 ^ 1 * (11 ^ 1 * (5 ^ 2 * (3 ^ 1 * 1)))) dvd P"
    by (rule period_prime_power [OF P E prime_41 a5 b5 c(2) [OF n5] d4 m5])
  have nb: "n < 41 ^ 1 * (31 ^ 1 * (11 ^ 1 * (5 ^ 2 * (3 ^ 1 * 1))))" using assms(2) by simp
  have "(?F ^^ n) (val image_serato_cd) \<noteq> val image_serato_cd"
    by (rule period_lower_bound [OF P(2) d5 assms(1) nb])
  then have "(?F ^^ n) (val seed_serato_cd) \<noteq> val seed_serato_cd"
    by (rule contrapos_nn) (rule c(3))
  then show ?thesis unfolding vT vs .
qed

lemma no_wrap_traktor_a:
  assumes "0 < n" "n < 1500000"
  shows "(fwdn 266305 (2 ^ 22) ^^ n) 1262851 \<noteq> 1262851"
proof -
  let ?F = "fwdn (val taps_traktor) (2 ^ 22)"
  have vT: "val taps_traktor = 266305" by (simp add: taps_traktor_def)
  have vs: "val seed_traktor_a = 1262851" by (simp add: seed_traktor_a_def)
  have l1: "length taps_traktor = Suc 22" by (simp add: taps_traktor_def)
  have l2: "length seed_traktor_a = Suc 22" by (simp add: seed_traktor_a_def)
  have g: "factor_traktor \<noteq> []" by (simp add: factor_traktor_def)
  have fac: "zerop (xorl (clmull (factor_traktor @ [True]) cofactor_traktor) (taps_traktor @ [True]))" by code_simp
  have Y: "evl taps_traktor cofactor_traktor seed_traktor_a = image_traktor_a" by code_simp
  have one: "pwl factor_traktor order_23 = onel factor_traktor" by code_simp
  note c = lfsr_cert [OF l1 l2 g fac Y one]
  have vE: "val order_23 = 8388607" by (simp add: order_23_def)
  have E: "(?F ^^ 8388607) (val image_traktor_a) = val image_traktor_a" using c(1) by (simp only: vE)
  obtain P where P: "(?F ^^ P) (val image_traktor_a) = val image_traktor_a"
    "\<And>n. (?F ^^ n) (val image_traktor_a) = val image_traktor_a \<Longrightarrow> P dvd n"
    by (rule least_period [OF _ E]) simp_all
  have d0: "1 dvd P" by simp
  have a1: "(8388607::nat) = 47 ^ 1 * 178481" by simp
  have b1: "8388607 = 47 * val order_23_div_47" by (simp add: order_23_div_47_def)
  have n1: "evl taps_traktor (pwl factor_traktor order_23_div_47) image_traktor_a \<noteq> image_traktor_a" by code_simp
  have m1: "\<not> 47 dvd (1 :: nat)" by simp
  have d1: "47 ^ 1 * 1 dvd P"
    by (rule period_prime_power [OF P E prime_47 a1 b1 c(2) [OF n1] d0 m1])
  have a2: "(8388607::nat) = 178481 ^ 1 * 47" by simp
  have b2: "8388607 = 178481 * val order_23_div_178481" by (simp add: order_23_div_178481_def)
  have n2: "evl taps_traktor (pwl factor_traktor order_23_div_178481) image_traktor_a \<noteq> image_traktor_a" by code_simp
  have m2: "\<not> 178481 dvd (47 ^ 1 * 1 :: nat)" by simp
  have d2: "178481 ^ 1 * (47 ^ 1 * 1) dvd P"
    by (rule period_prime_power [OF P E prime_178481 a2 b2 c(2) [OF n2] d1 m2])
  have nb: "n < 178481 ^ 1 * (47 ^ 1 * 1)" using assms(2) by simp
  have "(?F ^^ n) (val image_traktor_a) \<noteq> val image_traktor_a"
    by (rule period_lower_bound [OF P(2) d2 assms(1) nb])
  then have "(?F ^^ n) (val seed_traktor_a) \<noteq> val seed_traktor_a"
    by (rule contrapos_nn) (rule c(3))
  then show ?thesis unfolding vT vs .
qed

lemma no_wrap_traktor_b:
  assumes "0 < n" "n < 2110000"
  shows "(fwdn 266305 (2 ^ 22) ^^ n) 3278444 \<noteq> 3278444"
proof -
  let ?F = "fwdn (val taps_traktor) (2 ^ 22)"
  have vT: "val taps_traktor = 266305" by (simp add: taps_traktor_def)
  have vs: "val seed_traktor_b = 3278444" by (simp add: seed_traktor_b_def)
  have l1: "length taps_traktor = Suc 22" by (simp add: taps_traktor_def)
  have l2: "length seed_traktor_b = Suc 22" by (simp add: seed_traktor_b_def)
  have g: "factor_traktor \<noteq> []" by (simp add: factor_traktor_def)
  have fac: "zerop (xorl (clmull (factor_traktor @ [True]) cofactor_traktor) (taps_traktor @ [True]))" by code_simp
  have Y: "evl taps_traktor cofactor_traktor seed_traktor_b = image_traktor_b" by code_simp
  have one: "pwl factor_traktor order_23 = onel factor_traktor" by code_simp
  note c = lfsr_cert [OF l1 l2 g fac Y one]
  have vE: "val order_23 = 8388607" by (simp add: order_23_def)
  have E: "(?F ^^ 8388607) (val image_traktor_b) = val image_traktor_b" using c(1) by (simp only: vE)
  obtain P where P: "(?F ^^ P) (val image_traktor_b) = val image_traktor_b"
    "\<And>n. (?F ^^ n) (val image_traktor_b) = val image_traktor_b \<Longrightarrow> P dvd n"
    by (rule least_period [OF _ E]) simp_all
  have d0: "1 dvd P" by simp
  have a1: "(8388607::nat) = 47 ^ 1 * 178481" by simp
  have b1: "8388607 = 47 * val order_23_div_47" by (simp add: order_23_div_47_def)
  have n1: "evl taps_traktor (pwl factor_traktor order_23_div_47) image_traktor_b \<noteq> image_traktor_b" by code_simp
  have m1: "\<not> 47 dvd (1 :: nat)" by simp
  have d1: "47 ^ 1 * 1 dvd P"
    by (rule period_prime_power [OF P E prime_47 a1 b1 c(2) [OF n1] d0 m1])
  have a2: "(8388607::nat) = 178481 ^ 1 * 47" by simp
  have b2: "8388607 = 178481 * val order_23_div_178481" by (simp add: order_23_div_178481_def)
  have n2: "evl taps_traktor (pwl factor_traktor order_23_div_178481) image_traktor_b \<noteq> image_traktor_b" by code_simp
  have m2: "\<not> 178481 dvd (47 ^ 1 * 1 :: nat)" by simp
  have d2: "178481 ^ 1 * (47 ^ 1 * 1) dvd P"
    by (rule period_prime_power [OF P E prime_178481 a2 b2 c(2) [OF n2] d1 m2])
  have nb: "n < 178481 ^ 1 * (47 ^ 1 * 1)" using assms(2) by simp
  have "(?F ^^ n) (val image_traktor_b) \<noteq> val image_traktor_b"
    by (rule period_lower_bound [OF P(2) d2 assms(1) nb])
  then have "(?F ^^ n) (val seed_traktor_b) \<noteq> val seed_traktor_b"
    by (rule contrapos_nn) (rule c(3))
  then show ?thesis unfolding vT vs .
qed

lemma no_wrap_traktor_mk2_a:
  assumes "0 < n" "n < 1620000"
  shows "(fwdn 1180591621851282669569 (2 ^ 109) ^^ n) 1046772147223218688930507592556793 \<noteq> 1046772147223218688930507592556793"
proof -
  let ?F = "fwdn (val taps_traktor_mk2) (2 ^ 109)"
  have vT: "val taps_traktor_mk2 = 1180591621851282669569" by (simp add: taps_traktor_mk2_def)
  have vs: "val seed_traktor_mk2_a = 1046772147223218688930507592556793" by (simp add: seed_traktor_mk2_a_def)
  have l1: "length taps_traktor_mk2 = Suc 109" by (simp add: taps_traktor_mk2_def)
  have l2: "length seed_traktor_mk2_a = Suc 109" by (simp add: seed_traktor_mk2_a_def)
  have g: "factor_traktor_mk2 \<noteq> []" by (simp add: factor_traktor_mk2_def)
  have fac: "zerop (xorl (clmull (factor_traktor_mk2 @ [True]) cofactor_traktor_mk2) (taps_traktor_mk2 @ [True]))" by code_simp
  have Y: "evl taps_traktor_mk2 cofactor_traktor_mk2 seed_traktor_mk2_a = image_traktor_mk2_a" by code_simp
  have one: "pwl factor_traktor_mk2 order_22 = onel factor_traktor_mk2" by code_simp
  note c = lfsr_cert [OF l1 l2 g fac Y one]
  have vE: "val order_22 = 4194303" by (simp add: order_22_def)
  have E: "(?F ^^ 4194303) (val image_traktor_mk2_a) = val image_traktor_mk2_a" using c(1) by (simp only: vE)
  obtain P where P: "(?F ^^ P) (val image_traktor_mk2_a) = val image_traktor_mk2_a"
    "\<And>n. (?F ^^ n) (val image_traktor_mk2_a) = val image_traktor_mk2_a \<Longrightarrow> P dvd n"
    by (rule least_period [OF _ E]) simp_all
  have d0: "1 dvd P" by simp
  have a1: "(4194303::nat) = 3 ^ 1 * 1398101" by simp
  have b1: "4194303 = 3 * val order_22_div_3" by (simp add: order_22_div_3_def)
  have n1: "evl taps_traktor_mk2 (pwl factor_traktor_mk2 order_22_div_3) image_traktor_mk2_a \<noteq> image_traktor_mk2_a" by code_simp
  have m1: "\<not> 3 dvd (1 :: nat)" by simp
  have d1: "3 ^ 1 * 1 dvd P"
    by (rule period_prime_power [OF P E prime_3 a1 b1 c(2) [OF n1] d0 m1])
  have a2: "(4194303::nat) = 23 ^ 1 * 182361" by simp
  have b2: "4194303 = 23 * val order_22_div_23" by (simp add: order_22_div_23_def)
  have n2: "evl taps_traktor_mk2 (pwl factor_traktor_mk2 order_22_div_23) image_traktor_mk2_a \<noteq> image_traktor_mk2_a" by code_simp
  have m2: "\<not> 23 dvd (3 ^ 1 * 1 :: nat)" by simp
  have d2: "23 ^ 1 * (3 ^ 1 * 1) dvd P"
    by (rule period_prime_power [OF P E prime_23 a2 b2 c(2) [OF n2] d1 m2])
  have a3: "(4194303::nat) = 89 ^ 1 * 47127" by simp
  have b3: "4194303 = 89 * val order_22_div_89" by (simp add: order_22_div_89_def)
  have n3: "evl taps_traktor_mk2 (pwl factor_traktor_mk2 order_22_div_89) image_traktor_mk2_a \<noteq> image_traktor_mk2_a" by code_simp
  have m3: "\<not> 89 dvd (23 ^ 1 * (3 ^ 1 * 1) :: nat)" by simp
  have d3: "89 ^ 1 * (23 ^ 1 * (3 ^ 1 * 1)) dvd P"
    by (rule period_prime_power [OF P E prime_89 a3 b3 c(2) [OF n3] d2 m3])
  have a4: "(4194303::nat) = 683 ^ 1 * 6141" by simp
  have b4: "4194303 = 683 * val order_22_div_683" by (simp add: order_22_div_683_def)
  have n4: "evl taps_traktor_mk2 (pwl factor_traktor_mk2 order_22_div_683) image_traktor_mk2_a \<noteq> image_traktor_mk2_a" by code_simp
  have m4: "\<not> 683 dvd (89 ^ 1 * (23 ^ 1 * (3 ^ 1 * 1)) :: nat)" by simp
  have d4: "683 ^ 1 * (89 ^ 1 * (23 ^ 1 * (3 ^ 1 * 1))) dvd P"
    by (rule period_prime_power [OF P E prime_683 a4 b4 c(2) [OF n4] d3 m4])
  have nb: "n < 683 ^ 1 * (89 ^ 1 * (23 ^ 1 * (3 ^ 1 * 1)))" using assms(2) by simp
  have "(?F ^^ n) (val image_traktor_mk2_a) \<noteq> val image_traktor_mk2_a"
    by (rule period_lower_bound [OF P(2) d4 assms(1) nb])
  then have "(?F ^^ n) (val seed_traktor_mk2_a) \<noteq> val seed_traktor_mk2_a"
    by (rule contrapos_nn) (rule c(3))
  then show ?thesis unfolding vT vs .
qed

lemma no_wrap_traktor_mk2_b:
  assumes "0 < n" "n < 2295000"
  shows "(fwdn 1180591621851282669569 (2 ^ 109) ^^ n) 667358543058234992987551949129664 \<noteq> 667358543058234992987551949129664"
proof -
  let ?F = "fwdn (val taps_traktor_mk2) (2 ^ 109)"
  have vT: "val taps_traktor_mk2 = 1180591621851282669569" by (simp add: taps_traktor_mk2_def)
  have vs: "val seed_traktor_mk2_b = 667358543058234992987551949129664" by (simp add: seed_traktor_mk2_b_def)
  have l1: "length taps_traktor_mk2 = Suc 109" by (simp add: taps_traktor_mk2_def)
  have l2: "length seed_traktor_mk2_b = Suc 109" by (simp add: seed_traktor_mk2_b_def)
  have g: "factor_traktor_mk2 \<noteq> []" by (simp add: factor_traktor_mk2_def)
  have fac: "zerop (xorl (clmull (factor_traktor_mk2 @ [True]) cofactor_traktor_mk2) (taps_traktor_mk2 @ [True]))" by code_simp
  have Y: "evl taps_traktor_mk2 cofactor_traktor_mk2 seed_traktor_mk2_b = image_traktor_mk2_b" by code_simp
  have one: "pwl factor_traktor_mk2 order_22 = onel factor_traktor_mk2" by code_simp
  note c = lfsr_cert [OF l1 l2 g fac Y one]
  have vE: "val order_22 = 4194303" by (simp add: order_22_def)
  have E: "(?F ^^ 4194303) (val image_traktor_mk2_b) = val image_traktor_mk2_b" using c(1) by (simp only: vE)
  obtain P where P: "(?F ^^ P) (val image_traktor_mk2_b) = val image_traktor_mk2_b"
    "\<And>n. (?F ^^ n) (val image_traktor_mk2_b) = val image_traktor_mk2_b \<Longrightarrow> P dvd n"
    by (rule least_period [OF _ E]) simp_all
  have d0: "1 dvd P" by simp
  have a1: "(4194303::nat) = 3 ^ 1 * 1398101" by simp
  have b1: "4194303 = 3 * val order_22_div_3" by (simp add: order_22_div_3_def)
  have n1: "evl taps_traktor_mk2 (pwl factor_traktor_mk2 order_22_div_3) image_traktor_mk2_b \<noteq> image_traktor_mk2_b" by code_simp
  have m1: "\<not> 3 dvd (1 :: nat)" by simp
  have d1: "3 ^ 1 * 1 dvd P"
    by (rule period_prime_power [OF P E prime_3 a1 b1 c(2) [OF n1] d0 m1])
  have a2: "(4194303::nat) = 23 ^ 1 * 182361" by simp
  have b2: "4194303 = 23 * val order_22_div_23" by (simp add: order_22_div_23_def)
  have n2: "evl taps_traktor_mk2 (pwl factor_traktor_mk2 order_22_div_23) image_traktor_mk2_b \<noteq> image_traktor_mk2_b" by code_simp
  have m2: "\<not> 23 dvd (3 ^ 1 * 1 :: nat)" by simp
  have d2: "23 ^ 1 * (3 ^ 1 * 1) dvd P"
    by (rule period_prime_power [OF P E prime_23 a2 b2 c(2) [OF n2] d1 m2])
  have a3: "(4194303::nat) = 89 ^ 1 * 47127" by simp
  have b3: "4194303 = 89 * val order_22_div_89" by (simp add: order_22_div_89_def)
  have n3: "evl taps_traktor_mk2 (pwl factor_traktor_mk2 order_22_div_89) image_traktor_mk2_b \<noteq> image_traktor_mk2_b" by code_simp
  have m3: "\<not> 89 dvd (23 ^ 1 * (3 ^ 1 * 1) :: nat)" by simp
  have d3: "89 ^ 1 * (23 ^ 1 * (3 ^ 1 * 1)) dvd P"
    by (rule period_prime_power [OF P E prime_89 a3 b3 c(2) [OF n3] d2 m3])
  have a4: "(4194303::nat) = 683 ^ 1 * 6141" by simp
  have b4: "4194303 = 683 * val order_22_div_683" by (simp add: order_22_div_683_def)
  have n4: "evl taps_traktor_mk2 (pwl factor_traktor_mk2 order_22_div_683) image_traktor_mk2_b \<noteq> image_traktor_mk2_b" by code_simp
  have m4: "\<not> 683 dvd (89 ^ 1 * (23 ^ 1 * (3 ^ 1 * 1)) :: nat)" by simp
  have d4: "683 ^ 1 * (89 ^ 1 * (23 ^ 1 * (3 ^ 1 * 1))) dvd P"
    by (rule period_prime_power [OF P E prime_683 a4 b4 c(2) [OF n4] d3 m4])
  have nb: "n < 683 ^ 1 * (89 ^ 1 * (23 ^ 1 * (3 ^ 1 * 1)))" using assms(2) by simp
  have "(?F ^^ n) (val image_traktor_mk2_b) \<noteq> val image_traktor_mk2_b"
    by (rule period_lower_bound [OF P(2) d4 assms(1) nb])
  then have "(?F ^^ n) (val seed_traktor_mk2_b) \<noteq> val seed_traktor_mk2_b"
    by (rule contrapos_nn) (rule c(3))
  then show ?thesis unfolding vT vs .
qed

lemma no_wrap_traktor_mk2_cd:
  assumes "0 < n" "n < 4950000"
  shows "(fwdn 1298074214633708060055262560518145 (2 ^ 112) ^^ n) 10262894345315293439840895475119075 \<noteq> 10262894345315293439840895475119075"
proof -
  let ?F = "fwdn (val taps_traktor_mk2_cd) (2 ^ 112)"
  have vT: "val taps_traktor_mk2_cd = 1298074214633708060055262560518145" by (simp add: taps_traktor_mk2_cd_def)
  have vs: "val seed_traktor_mk2_cd = 10262894345315293439840895475119075" by (simp add: seed_traktor_mk2_cd_def)
  have l1: "length taps_traktor_mk2_cd = Suc 112" by (simp add: taps_traktor_mk2_cd_def)
  have l2: "length seed_traktor_mk2_cd = Suc 112" by (simp add: seed_traktor_mk2_cd_def)
  have g: "factor_traktor_mk2_cd \<noteq> []" by (simp add: factor_traktor_mk2_cd_def)
  have fac: "zerop (xorl (clmull (factor_traktor_mk2_cd @ [True]) cofactor_traktor_mk2_cd) (taps_traktor_mk2_cd @ [True]))" by code_simp
  have Y: "evl taps_traktor_mk2_cd cofactor_traktor_mk2_cd seed_traktor_mk2_cd = image_traktor_mk2_cd" by code_simp
  have one: "pwl factor_traktor_mk2_cd order_64 = onel factor_traktor_mk2_cd" by code_simp
  note c = lfsr_cert [OF l1 l2 g fac Y one]
  have vE: "val order_64 = 18446744073709551615" by (simp add: order_64_def)
  have E: "(?F ^^ 18446744073709551615) (val image_traktor_mk2_cd) = val image_traktor_mk2_cd" using c(1) by (simp only: vE)
  obtain P where P: "(?F ^^ P) (val image_traktor_mk2_cd) = val image_traktor_mk2_cd"
    "\<And>n. (?F ^^ n) (val image_traktor_mk2_cd) = val image_traktor_mk2_cd \<Longrightarrow> P dvd n"
    by (rule least_period [OF _ E]) simp_all
  have d0: "1 dvd P" by simp
  have a1: "(18446744073709551615::nat) = 257 ^ 1 * 71777214294589695" by simp
  have b1: "18446744073709551615 = 257 * val order_64_div_257" by (simp add: order_64_div_257_def)
  have n1: "evl taps_traktor_mk2_cd (pwl factor_traktor_mk2_cd order_64_div_257) image_traktor_mk2_cd \<noteq> image_traktor_mk2_cd" by code_simp
  have m1: "\<not> 257 dvd (1 :: nat)" by simp
  have d1: "257 ^ 1 * 1 dvd P"
    by (rule period_prime_power [OF P E prime_257 a1 b1 c(2) [OF n1] d0 m1])
  have a2: "(18446744073709551615::nat) = 65537 ^ 1 * 281470681808895" by simp
  have b2: "18446744073709551615 = 65537 * val order_64_div_65537" by (simp add: order_64_div_65537_def)
  have n2: "evl taps_traktor_mk2_cd (pwl factor_traktor_mk2_cd order_64_div_65537) image_traktor_mk2_cd \<noteq> image_traktor_mk2_cd" by code_simp
  have m2: "\<not> 65537 dvd (257 ^ 1 * 1 :: nat)" by simp
  have d2: "65537 ^ 1 * (257 ^ 1 * 1) dvd P"
    by (rule period_prime_power [OF P E prime_65537 a2 b2 c(2) [OF n2] d1 m2])
  have nb: "n < 65537 ^ 1 * (257 ^ 1 * 1)" using assms(2) by simp
  have "(?F ^^ n) (val image_traktor_mk2_cd) \<noteq> val image_traktor_mk2_cd"
    by (rule period_lower_bound [OF P(2) d2 assms(1) nb])
  then have "(?F ^^ n) (val seed_traktor_mk2_cd) \<noteq> val seed_traktor_mk2_cd"
    by (rule contrapos_nn) (rule c(3))
  then show ?thesis unfolding vT vs .
qed

lemma no_wrap_mixvibes:
  assumes "0 < n" "n < 950000"
  shows "(fwdn 9 (2 ^ 19) ^^ n) 142480 \<noteq> 142480"
proof -
  let ?F = "fwdn (val taps_mixvibes) (2 ^ 19)"
  have vT: "val taps_mixvibes = 9" by (simp add: taps_mixvibes_def)
  have vs: "val seed_mixvibes = 142480" by (simp add: seed_mixvibes_def)
  have l1: "length taps_mixvibes = Suc 19" by (simp add: taps_mixvibes_def)
  have l2: "length seed_mixvibes = Suc 19" by (simp add: seed_mixvibes_def)
  have g: "factor_mixvibes \<noteq> []" by (simp add: factor_mixvibes_def)
  have fac: "zerop (xorl (clmull (factor_mixvibes @ [True]) cofactor_mixvibes) (taps_mixvibes @ [True]))" by code_simp
  have Y: "evl taps_mixvibes cofactor_mixvibes seed_mixvibes = image_mixvibes" by code_simp
  have one: "pwl factor_mixvibes order_20 = onel factor_mixvibes" by code_simp
  note c = lfsr_cert [OF l1 l2 g fac Y one]
  have vE: "val order_20 = 1048575" by (simp add: order_20_def)
  have E: "(?F ^^ 1048575) (val image_mixvibes) = val image_mixvibes" using c(1) by (simp only: vE)
  obtain P where P: "(?F ^^ P) (val image_mixvibes) = val image_mixvibes"
    "\<And>n. (?F ^^ n) (val image_mixvibes) = val image_mixvibes \<Longrightarrow> P dvd n"
    by (rule least_period [OF _ E]) simp_all
  have d0: "1 dvd P" by simp
  have a1: "(1048575::nat) = 3 ^ 1 * 349525" by simp
  have b1: "1048575 = 3 * val order_20_div_3" by (simp add: order_20_div_3_def)
  have n1: "evl taps_mixvibes (pwl factor_mixvibes order_20_div_3) image_mixvibes \<noteq> image_mixvibes" by code_simp
  have m1: "\<not> 3 dvd (1 :: nat)" by simp
  have d1: "3 ^ 1 * 1 dvd P"
    by (rule period_prime_power [OF P E prime_3 a1 b1 c(2) [OF n1] d0 m1])
  have a2: "(1048575::nat) = 5 ^ 2 * 41943" by simp
  have b2: "1048575 = 5 * val order_20_div_5" by (simp add: order_20_div_5_def)
  have n2: "evl taps_mixvibes (pwl factor_mixvibes order_20_div_5) image_mixvibes \<noteq> image_mixvibes" by code_simp
  have m2: "\<not> 5 dvd (3 ^ 1 * 1 :: nat)" by simp
  have d2: "5 ^ 2 * (3 ^ 1 * 1) dvd P"
    by (rule period_prime_power [OF P E prime_5 a2 b2 c(2) [OF n2] d1 m2])
  have a3: "(1048575::nat) = 11 ^ 1 * 95325" by simp
  have b3: "1048575 = 11 * val order_20_div_11" by (simp add: order_20_div_11_def)
  have n3: "evl taps_mixvibes (pwl factor_mixvibes order_20_div_11) image_mixvibes \<noteq> image_mixvibes" by code_simp
  have m3: "\<not> 11 dvd (5 ^ 2 * (3 ^ 1 * 1) :: nat)" by simp
  have d3: "11 ^ 1 * (5 ^ 2 * (3 ^ 1 * 1)) dvd P"
    by (rule period_prime_power [OF P E prime_11 a3 b3 c(2) [OF n3] d2 m3])
  have a4: "(1048575::nat) = 31 ^ 1 * 33825" by simp
  have b4: "1048575 = 31 * val order_20_div_31" by (simp add: order_20_div_31_def)
  have n4: "evl taps_mixvibes (pwl factor_mixvibes order_20_div_31) image_mixvibes \<noteq> image_mixvibes" by code_simp
  have m4: "\<not> 31 dvd (11 ^ 1 * (5 ^ 2 * (3 ^ 1 * 1)) :: nat)" by simp
  have d4: "31 ^ 1 * (11 ^ 1 * (5 ^ 2 * (3 ^ 1 * 1))) dvd P"
    by (rule period_prime_power [OF P E prime_31 a4 b4 c(2) [OF n4] d3 m4])
  have a5: "(1048575::nat) = 41 ^ 1 * 25575" by simp
  have b5: "1048575 = 41 * val order_20_div_41" by (simp add: order_20_div_41_def)
  have n5: "evl taps_mixvibes (pwl factor_mixvibes order_20_div_41) image_mixvibes \<noteq> image_mixvibes" by code_simp
  have m5: "\<not> 41 dvd (31 ^ 1 * (11 ^ 1 * (5 ^ 2 * (3 ^ 1 * 1))) :: nat)" by simp
  have d5: "41 ^ 1 * (31 ^ 1 * (11 ^ 1 * (5 ^ 2 * (3 ^ 1 * 1)))) dvd P"
    by (rule period_prime_power [OF P E prime_41 a5 b5 c(2) [OF n5] d4 m5])
  have nb: "n < 41 ^ 1 * (31 ^ 1 * (11 ^ 1 * (5 ^ 2 * (3 ^ 1 * 1))))" using assms(2) by simp
  have "(?F ^^ n) (val image_mixvibes) \<noteq> val image_mixvibes"
    by (rule period_lower_bound [OF P(2) d5 assms(1) nb])
  then have "(?F ^^ n) (val seed_mixvibes) \<noteq> val seed_mixvibes"
    by (rule contrapos_nn) (rule c(3))
  then show ?thesis unfolding vT vs .
qed

lemma no_wrap_pioneer_a:
  assumes "0 < n" "n < 635000"
  shows "(fwdn 496443 (2 ^ 19) ^^ n) 492400 \<noteq> 492400"
proof -
  let ?F = "fwdn (val taps_pioneer_a) (2 ^ 19)"
  have vT: "val taps_pioneer_a = 496443" by (simp add: taps_pioneer_a_def)
  have vs: "val seed_pioneer_a = 492400" by (simp add: seed_pioneer_a_def)
  have l1: "length taps_pioneer_a = Suc 19" by (simp add: taps_pioneer_a_def)
  have l2: "length seed_pioneer_a = Suc 19" by (simp add: seed_pioneer_a_def)
  have g: "factor_pioneer_a \<noteq> []" by (simp add: factor_pioneer_a_def)
  have fac: "zerop (xorl (clmull (factor_pioneer_a @ [True]) cofactor_pioneer_a) (taps_pioneer_a @ [True]))" by code_simp
  have Y: "evl taps_pioneer_a cofactor_pioneer_a seed_pioneer_a = image_pioneer_a" by code_simp
  have one: "pwl factor_pioneer_a order_20 = onel factor_pioneer_a" by code_simp
  note c = lfsr_cert [OF l1 l2 g fac Y one]
  have vE: "val order_20 = 1048575" by (simp add: order_20_def)
  have E: "(?F ^^ 1048575) (val image_pioneer_a) = val image_pioneer_a" using c(1) by (simp only: vE)
  obtain P where P: "(?F ^^ P) (val image_pioneer_a) = val image_pioneer_a"
    "\<And>n. (?F ^^ n) (val image_pioneer_a) = val image_pioneer_a \<Longrightarrow> P dvd n"
    by (rule least_period [OF _ E]) simp_all
  have d0: "1 dvd P" by simp
  have a1: "(1048575::nat) = 3 ^ 1 * 349525" by simp
  have b1: "1048575 = 3 * val order_20_div_3" by (simp add: order_20_div_3_def)
  have n1: "evl taps_pioneer_a (pwl factor_pioneer_a order_20_div_3) image_pioneer_a \<noteq> image_pioneer_a" by code_simp
  have m1: "\<not> 3 dvd (1 :: nat)" by simp
  have d1: "3 ^ 1 * 1 dvd P"
    by (rule period_prime_power [OF P E prime_3 a1 b1 c(2) [OF n1] d0 m1])
  have a2: "(1048575::nat) = 5 ^ 2 * 41943" by simp
  have b2: "1048575 = 5 * val order_20_div_5" by (simp add: order_20_div_5_def)
  have n2: "evl taps_pioneer_a (pwl factor_pioneer_a order_20_div_5) image_pioneer_a \<noteq> image_pioneer_a" by code_simp
  have m2: "\<not> 5 dvd (3 ^ 1 * 1 :: nat)" by simp
  have d2: "5 ^ 2 * (3 ^ 1 * 1) dvd P"
    by (rule period_prime_power [OF P E prime_5 a2 b2 c(2) [OF n2] d1 m2])
  have a3: "(1048575::nat) = 11 ^ 1 * 95325" by simp
  have b3: "1048575 = 11 * val order_20_div_11" by (simp add: order_20_div_11_def)
  have n3: "evl taps_pioneer_a (pwl factor_pioneer_a order_20_div_11) image_pioneer_a \<noteq> image_pioneer_a" by code_simp
  have m3: "\<not> 11 dvd (5 ^ 2 * (3 ^ 1 * 1) :: nat)" by simp
  have d3: "11 ^ 1 * (5 ^ 2 * (3 ^ 1 * 1)) dvd P"
    by (rule period_prime_power [OF P E prime_11 a3 b3 c(2) [OF n3] d2 m3])
  have a4: "(1048575::nat) = 31 ^ 1 * 33825" by simp
  have b4: "1048575 = 31 * val order_20_div_31" by (simp add: order_20_div_31_def)
  have n4: "evl taps_pioneer_a (pwl factor_pioneer_a order_20_div_31) image_pioneer_a \<noteq> image_pioneer_a" by code_simp
  have m4: "\<not> 31 dvd (11 ^ 1 * (5 ^ 2 * (3 ^ 1 * 1)) :: nat)" by simp
  have d4: "31 ^ 1 * (11 ^ 1 * (5 ^ 2 * (3 ^ 1 * 1))) dvd P"
    by (rule period_prime_power [OF P E prime_31 a4 b4 c(2) [OF n4] d3 m4])
  have a5: "(1048575::nat) = 41 ^ 1 * 25575" by simp
  have b5: "1048575 = 41 * val order_20_div_41" by (simp add: order_20_div_41_def)
  have n5: "evl taps_pioneer_a (pwl factor_pioneer_a order_20_div_41) image_pioneer_a \<noteq> image_pioneer_a" by code_simp
  have m5: "\<not> 41 dvd (31 ^ 1 * (11 ^ 1 * (5 ^ 2 * (3 ^ 1 * 1))) :: nat)" by simp
  have d5: "41 ^ 1 * (31 ^ 1 * (11 ^ 1 * (5 ^ 2 * (3 ^ 1 * 1)))) dvd P"
    by (rule period_prime_power [OF P E prime_41 a5 b5 c(2) [OF n5] d4 m5])
  have nb: "n < 41 ^ 1 * (31 ^ 1 * (11 ^ 1 * (5 ^ 2 * (3 ^ 1 * 1))))" using assms(2) by simp
  have "(?F ^^ n) (val image_pioneer_a) \<noteq> val image_pioneer_a"
    by (rule period_lower_bound [OF P(2) d5 assms(1) nb])
  then have "(?F ^^ n) (val seed_pioneer_a) \<noteq> val seed_pioneer_a"
    by (rule contrapos_nn) (rule c(3))
  then show ?thesis unfolding vT vs .
qed

lemma no_wrap_pioneer_b:
  assumes "0 < n" "n < 918500"
  shows "(fwdn 192285 (2 ^ 19) ^^ n) 1011730 \<noteq> 1011730"
proof -
  let ?F = "fwdn (val taps_pioneer_b) (2 ^ 19)"
  have vT: "val taps_pioneer_b = 192285" by (simp add: taps_pioneer_b_def)
  have vs: "val seed_pioneer_b = 1011730" by (simp add: seed_pioneer_b_def)
  have l1: "length taps_pioneer_b = Suc 19" by (simp add: taps_pioneer_b_def)
  have l2: "length seed_pioneer_b = Suc 19" by (simp add: seed_pioneer_b_def)
  have g: "factor_pioneer_b \<noteq> []" by (simp add: factor_pioneer_b_def)
  have fac: "zerop (xorl (clmull (factor_pioneer_b @ [True]) cofactor_pioneer_b) (taps_pioneer_b @ [True]))" by code_simp
  have Y: "evl taps_pioneer_b cofactor_pioneer_b seed_pioneer_b = image_pioneer_b" by code_simp
  have one: "pwl factor_pioneer_b order_20 = onel factor_pioneer_b" by code_simp
  note c = lfsr_cert [OF l1 l2 g fac Y one]
  have vE: "val order_20 = 1048575" by (simp add: order_20_def)
  have E: "(?F ^^ 1048575) (val image_pioneer_b) = val image_pioneer_b" using c(1) by (simp only: vE)
  obtain P where P: "(?F ^^ P) (val image_pioneer_b) = val image_pioneer_b"
    "\<And>n. (?F ^^ n) (val image_pioneer_b) = val image_pioneer_b \<Longrightarrow> P dvd n"
    by (rule least_period [OF _ E]) simp_all
  have d0: "1 dvd P" by simp
  have a1: "(1048575::nat) = 3 ^ 1 * 349525" by simp
  have b1: "1048575 = 3 * val order_20_div_3" by (simp add: order_20_div_3_def)
  have n1: "evl taps_pioneer_b (pwl factor_pioneer_b order_20_div_3) image_pioneer_b \<noteq> image_pioneer_b" by code_simp
  have m1: "\<not> 3 dvd (1 :: nat)" by simp
  have d1: "3 ^ 1 * 1 dvd P"
    by (rule period_prime_power [OF P E prime_3 a1 b1 c(2) [OF n1] d0 m1])
  have a2: "(1048575::nat) = 5 ^ 2 * 41943" by simp
  have b2: "1048575 = 5 * val order_20_div_5" by (simp add: order_20_div_5_def)
  have n2: "evl taps_pioneer_b (pwl factor_pioneer_b order_20_div_5) image_pioneer_b \<noteq> image_pioneer_b" by code_simp
  have m2: "\<not> 5 dvd (3 ^ 1 * 1 :: nat)" by simp
  have d2: "5 ^ 2 * (3 ^ 1 * 1) dvd P"
    by (rule period_prime_power [OF P E prime_5 a2 b2 c(2) [OF n2] d1 m2])
  have a3: "(1048575::nat) = 11 ^ 1 * 95325" by simp
  have b3: "1048575 = 11 * val order_20_div_11" by (simp add: order_20_div_11_def)
  have n3: "evl taps_pioneer_b (pwl factor_pioneer_b order_20_div_11) image_pioneer_b \<noteq> image_pioneer_b" by code_simp
  have m3: "\<not> 11 dvd (5 ^ 2 * (3 ^ 1 * 1) :: nat)" by simp
  have d3: "11 ^ 1 * (5 ^ 2 * (3 ^ 1 * 1)) dvd P"
    by (rule period_prime_power [OF P E prime_11 a3 b3 c(2) [OF n3] d2 m3])
  have a4: "(1048575::nat) = 31 ^ 1 * 33825" by simp
  have b4: "1048575 = 31 * val order_20_div_31" by (simp add: order_20_div_31_def)
  have n4: "evl taps_pioneer_b (pwl factor_pioneer_b order_20_div_31) image_pioneer_b \<noteq> image_pioneer_b" by code_simp
  have m4: "\<not> 31 dvd (11 ^ 1 * (5 ^ 2 * (3 ^ 1 * 1)) :: nat)" by simp
  have d4: "31 ^ 1 * (11 ^ 1 * (5 ^ 2 * (3 ^ 1 * 1))) dvd P"
    by (rule period_prime_power [OF P E prime_31 a4 b4 c(2) [OF n4] d3 m4])
  have a5: "(1048575::nat) = 41 ^ 1 * 25575" by simp
  have b5: "1048575 = 41 * val order_20_div_41" by (simp add: order_20_div_41_def)
  have n5: "evl taps_pioneer_b (pwl factor_pioneer_b order_20_div_41) image_pioneer_b \<noteq> image_pioneer_b" by code_simp
  have m5: "\<not> 41 dvd (31 ^ 1 * (11 ^ 1 * (5 ^ 2 * (3 ^ 1 * 1))) :: nat)" by simp
  have d5: "41 ^ 1 * (31 ^ 1 * (11 ^ 1 * (5 ^ 2 * (3 ^ 1 * 1)))) dvd P"
    by (rule period_prime_power [OF P E prime_41 a5 b5 c(2) [OF n5] d4 m5])
  have nb: "n < 41 ^ 1 * (31 ^ 1 * (11 ^ 1 * (5 ^ 2 * (3 ^ 1 * 1))))" using assms(2) by simp
  have "(?F ^^ n) (val image_pioneer_b) \<noteq> val image_pioneer_b"
    by (rule period_lower_bound [OF P(2) d5 assms(1) nb])
  then have "(?F ^^ n) (val seed_pioneer_b) \<noteq> val seed_pioneer_b"
    by (rule contrapos_nn) (rule c(3))
  then show ?thesis unfolding vT vs .
qed

section \<open>The forward step of the source on natural numbers\<close>

text \<open>
  The parity computed by \<^const>\<open>lfsr\<close> is \<^const>\<open>parn\<close> of the register's number, and
  \<^const>\<open>fwd\<close> is \<^const>\<open>fwdn\<close> for the tap mask \<^verbatim>\<open>taps | 1\<close> cut to the register
  width; a register value that comes back after \<open>j - i\<close> steps is what two equal values
  \<open>x\<^sub>i = x\<^sub>j\<close> of the sequence amount to, the step being injective.
\<close>

lemma odd_unat: "odd (unat w) = bit w 0"
proof -
  have "bit (unat w) 0 = bit w 0" by (simp add: bit_unsigned_iff)
  then show ?thesis by (simp only: bit_0)
qed

lemma par_parn: "par w = parn (unat w)"
proof (induction "unat w" arbitrary: w rule: less_induct)
  case less
  show ?case
  proof (cases "w = 0")
    case True
    then show ?thesis by (simp add: par_def pc_0 parn_0)
  next
    case False
    then have "0 < unat w" by (simp add: unat_gt_0)
    then have lt: "unat (drop_bit 1 w) < unat w"
      by (simp add: drop_bit_eq_div unat_div)
    have d: "unat (drop_bit 1 w) = unat w div 2"
      by (simp add: drop_bit_eq_div unat_div)
    have o: "bit w 0 = odd (unat w)"
      by (simp only: odd_unat)
    have "par (drop_bit 1 w) = parn (unat (drop_bit 1 w))"
      using lt by (rule less)
    then have "par (drop_bit 1 w) = parn (unat w div 2)"
      by (simp only: d)
    moreover have "par w = (bit w 0 \<noteq> par (drop_bit 1 w))" by (rule par_drop1)
    ultimately have "par w = (odd (unat w) \<noteq> parn (unat w div 2))"
      by (simp only: o)
    with parn_rec [of "unat w"] show ?thesis by blast
  qed
qed

lemma unat_below:
  fixes x :: bits_t
  assumes "x < 2 ^ b"
  shows "unat x < 2 ^ b"
proof (rule small_natI)
  fix j assume "b \<le> j"
  then have "\<not> bit x j" by (rule small_bit [OF assms])
  then show "\<not> bit (unat x) j" by (simp add: bit_unsigned_iff)
qed

lemma and_take_bit_small:
  fixes x t :: nat
  assumes "x < 2 ^ b"
  shows "x AND take_bit b t = x AND t"
proof (rule bit_eqI)
  fix j
  show "bit (x AND take_bit b t) j = bit (x AND t) j"
    using small_nat_bit [OF assms, of j]
    by (cases "b \<le> j") (auto simp: bit_and_iff bit_take_bit_iff)
qed

lemma unat_fwd:
  fixes x :: bits_t
  assumes b: "0 < bits d" "bits d < 128" and x: "x < 2 ^ bits d"
  shows "unat (fwd x d)
    = fwdn (take_bit (bits d) (unat (taps d OR 1))) (2 ^ (bits d - 1)) (unat x)"
proof (rule bit_eqI)
  fix j
  define k where "k = bits d - 1"
  have k: "bits d = Suc k" using b(1) by (simp add: k_def)
  have xn: "unat x < 2 * 2 ^ k" using unat_below [OF x] by (simp add: k)
  have p: "par (x AND (taps d OR 1)) = parn (unat x AND take_bit (bits d) (unat (taps d OR 1)))"
    using xn by (simp add: par_parn unsigned_and_eq and_take_bit_small k)
  have "bit (unat (fwd x d)) j \<longleftrightarrow> bit (fwd x d) j"
    by (simp add: bit_unsigned_iff)
  also have "\<dots> \<longleftrightarrow> bit x (Suc j) \<or> (j = k \<and> par (x AND (taps d OR 1)))"
    using b(2) by (auto simp: bit_fwd k_def)
  also have "bit x (Suc j) \<longleftrightarrow> bit (unat x) (Suc j)"
    by (simp add: bit_unsigned_iff)
  finally show "bit (unat (fwd x d)) j
      = bit (fwdn (take_bit (bits d) (unat (taps d OR 1))) (2 ^ (bits d - 1)) (unat x)) j"
    unfolding p k_def [symmetric] by (simp add: bit_fwdn [OF xn])
qed

lemma funpow_fwd_bound:
  assumes "0 < bits d" "bits d < 128" "seed d < 2 ^ bits d"
  shows "((\<lambda>c. fwd c d) ^^ i) (seed d) < 2 ^ bits d"
  by (induction i) (simp_all add: assms fwd_bound)

lemma unat_funpow_fwd:
  assumes "0 < bits d" "bits d < 128" "seed d < 2 ^ bits d"
  shows "unat (((\<lambda>c. fwd c d) ^^ i) (seed d))
    = (fwdn (take_bit (bits d) (unat (taps d OR 1))) (2 ^ (bits d - 1)) ^^ i) (unat (seed d))"
  by (induction i) (simp_all add: unat_fwd [OF assms(1,2) funpow_fwd_bound [OF assms]])

lemma funpow_fwdn_cancel:
  assumes "odd t" "x < 2 * 2 ^ k"
    and "(fwdn t (2 ^ k) ^^ (i + m)) x = (fwdn t (2 ^ k) ^^ i) x"
  shows "(fwdn t (2 ^ k) ^^ m) x = x"
  using assms(3)
proof (induction i)
  case 0
  then show ?case by simp
next
  case (Suc i)
  then have "fwdn t (2 ^ k) ((fwdn t (2 ^ k) ^^ (i + m)) x)
      = fwdn t (2 ^ k) ((fwdn t (2 ^ k) ^^ i) x)"
    by simp
  then have "(fwdn t (2 ^ k) ^^ (i + m)) x = (fwdn t (2 ^ k) ^^ i) x"
    by (intro fwdn_inj [OF assms(1) funpow_closed funpow_closed]) (simp_all add: assms(2))
  then show ?case by (rule Suc.IH)
qed

lemma register_sequence_distinct:
  assumes b: "0 < bits d" "bits d < 128" "seed d < 2 ^ bits d"
    and cert: "\<And>n. 0 < n \<Longrightarrow> n < L \<Longrightarrow>
      (fwdn (take_bit (bits d) (unat (taps d OR 1))) (2 ^ (bits d - 1)) ^^ n) (unat (seed d))
        \<noteq> unat (seed d)"
    and ij: "i < j" "j < L"
  shows "((\<lambda>c. fwd c d) ^^ i) (seed d) \<noteq> ((\<lambda>c. fwd c d) ^^ j) (seed d)"
proof
  define k where "k = bits d - 1"
  define t where "t = take_bit (bits d) (unat (taps d OR 1))"
  have k: "bits d = Suc k" using b(1) by (simp add: k_def)
  have "bit (taps d OR 1) 0" by (simp add: bit_0 even_or_iff)
  then have t: "odd t" using b(1) by (simp add: t_def odd_unat)
  have s: "unat (seed d) < 2 * 2 ^ k" using unat_below [OF b(3)] by (simp add: k)
  assume "((\<lambda>c. fwd c d) ^^ i) (seed d) = ((\<lambda>c. fwd c d) ^^ j) (seed d)"
  then have "(fwdn t (2 ^ k) ^^ i) (unat (seed d)) = (fwdn t (2 ^ k) ^^ j) (unat (seed d))"
    using unat_funpow_fwd [OF b, of i] unat_funpow_fwd [OF b, of j] by (simp add: t_def k_def)
  moreover have "j = i + (j - i)" using ij(1) by simp
  ultimately have "(fwdn t (2 ^ k) ^^ (i + (j - i))) (unat (seed d))
      = (fwdn t (2 ^ k) ^^ i) (unat (seed d))"
    by simp
  then have "(fwdn t (2 ^ k) ^^ (j - i)) (unat (seed d)) = unat (seed d)"
    by (rule funpow_fwdn_cancel [OF t s])
  moreover have "0 < j - i" "j - i < L" using ij by simp_all
  ultimately show False using cert [of "j - i"] by (simp add: t_def k_def)
qed

section \<open>The table built from a sequence without repetition\<close>

lemma lut_index_absent: "x \<notin> set l \<Longrightarrow> lut_index l x n = None"
  by (induction l arbitrary: n) auto

lemma lut_index_nth:
  "distinct l \<Longrightarrow> i < length l \<Longrightarrow> lut_index l (l ! i) n = Some (n + i)"
proof (induction l arbitrary: i n)
  case Nil
  then show ?case by simp
next
  case (Cons y ys)
  show ?case
  proof (cases i)
    case 0
    then show ?thesis by simp
  next
    case (Suc i')
    then have "ys ! i' \<in> set ys" using Cons.prems(2) by simp
    then have "y \<noteq> ys ! i'" using Cons.prems(1) by auto
    then show ?thesis using Cons Suc by simp
  qed
qed

lemma build_loop_run:
  assumes b: "0 < bits d" "bits d < 128" "seed d < 2 ^ bits d"
    and dist: "\<And>i j. i < j \<Longrightarrow> j < unat (length_tc d) \<Longrightarrow>
      ((\<lambda>c. fwd c d) ^^ i) (seed d) \<noteq> ((\<lambda>c. fwd c d) ^^ j) (seed d)"
    and n: "n \<le> unat (length_tc d)"
  shows "build_loop d (of_nat n) (((\<lambda>c. fwd c d) ^^ n) (seed d))
           (map (\<lambda>i. ((\<lambda>c. fwd c d) ^^ i) (seed d)) [0..<n])
         = Inr (map (\<lambda>i. ((\<lambda>c. fwd c d) ^^ i) (seed d)) [0..<unat (length_tc d)])"
  using n
proof (induction "unat (length_tc d) - n" arbitrary: n)
  case 0
  then have "n = unat (length_tc d)" by simp
  then have "(of_nat n :: uint32) = length_tc d" by simp
  then show ?case using \<open>n = unat (length_tc d)\<close> by (subst build_loop.simps) simp
next
  case (Suc m)
  let ?x = "\<lambda>i. ((\<lambda>c. fwd c d) ^^ i) (seed d)"
  have lt: "n < unat (length_tc d)" using Suc.hyps(2) by simp
  have "unat (length_tc d) < 2 ^ 32"
    using unsigned_less [of "length_tc d", where ?'a = nat] by simp
  then have un: "unat (of_nat n :: uint32) = n" using lt by (simp add: unat_of_nat)
  then have c1: "(of_nat n :: uint32) < length_tc d" using lt by (simp add: word_less_nat_alt)
  have "?x n \<notin> set (map ?x [0..<n])"
  proof
    assume "?x n \<in> set (map ?x [0..<n])"
    then obtain i where "i < n" "?x i = ?x n" by auto
    then show False using dist [of i n] lt by simp
  qed
  then have c2: "lut_lookup (map ?x [0..<n]) (?x n) = None"
    by (simp add: lut_lookup_def lut_index_absent)
  have c3: "rev_tc (fwd (?x n) d) d = ?x n"
    by (rule rev_fwd [OF b(1,2) funpow_fwd_bound [OF b]])
  have ih: "build_loop d (of_nat (Suc n)) (?x (Suc n)) (map ?x [0..<Suc n])
      = Inr (map ?x [0..<unat (length_tc d)])"
    using Suc.hyps(2) lt by (intro Suc.hyps(1)) simp_all
  have "build_loop d (of_nat n) (?x n) (map ?x [0..<n])
      = build_loop d (of_nat n + 1) (fwd (?x n) d) (lut_push (map ?x [0..<n]) (?x n))"
    using c1 c2 c3 by (subst build_loop.simps) (simp add: Let_def)
  also have "\<dots> = build_loop d (of_nat (Suc n)) (?x (Suc n)) (map ?x [0..<Suc n])"
    by (simp add: lut_push_def ac_simps)
  finally show ?case using ih by simp
qed

section \<open>The registers of the catalog\<close>

lemma entry_serato_2a:
  "bits (timecodes ! 0) = 20"
  "unat (seed (timecodes ! 0)) = 364567"
  "take_bit 20 (unat (taps (timecodes ! 0) OR 1)) = 221669"
  "unat (length_tc (timecodes ! 0)) = 712000"
  by (simp_all add: timecodes_def UINT128_def)

lemma entry_serato_2b:
  "bits (timecodes ! 1) = 20"
  "unat (seed (timecodes ! 1)) = 586694"
  "take_bit 20 (unat (taps (timecodes ! 1) OR 1)) = 323801"
  "unat (length_tc (timecodes ! 1)) = 922000"
  by (simp_all add: timecodes_def UINT128_def)

lemma entry_serato_cd:
  "bits (timecodes ! 2) = 20"
  "unat (seed (timecodes ! 2)) = 887616"
  "take_bit 20 (unat (taps (timecodes ! 2) OR 1)) = 216405"
  "unat (length_tc (timecodes ! 2)) = 950000"
  by (simp_all add: timecodes_def UINT128_def)

lemma entry_traktor_a:
  "bits (timecodes ! 3) = 23"
  "unat (seed (timecodes ! 3)) = 1262851"
  "take_bit 23 (unat (taps (timecodes ! 3) OR 1)) = 266305"
  "unat (length_tc (timecodes ! 3)) = 1500000"
  by (simp_all add: timecodes_def UINT128_def)

lemma entry_traktor_b:
  "bits (timecodes ! 4) = 23"
  "unat (seed (timecodes ! 4)) = 3278444"
  "take_bit 23 (unat (taps (timecodes ! 4) OR 1)) = 266305"
  "unat (length_tc (timecodes ! 4)) = 2110000"
  by (simp_all add: timecodes_def UINT128_def)

lemma entry_traktor_mk2_a:
  "bits (timecodes ! 5) = 110"
  "unat (seed (timecodes ! 5)) = 1046772147223218688930507592556793"
  "take_bit 110 (unat (taps (timecodes ! 5) OR 1)) = 1180591621851282669569"
  "unat (length_tc (timecodes ! 5)) = 1620000"
  by (simp_all add: timecodes_def UINT128_def)

lemma entry_traktor_mk2_b:
  "bits (timecodes ! 6) = 110"
  "unat (seed (timecodes ! 6)) = 667358543058234992987551949129664"
  "take_bit 110 (unat (taps (timecodes ! 6) OR 1)) = 1180591621851282669569"
  "unat (length_tc (timecodes ! 6)) = 2295000"
  by (simp_all add: timecodes_def UINT128_def)

lemma entry_traktor_mk2_cd:
  "bits (timecodes ! 7) = 113"
  "unat (seed (timecodes ! 7)) = 10262894345315293439840895475119075"
  "take_bit 113 (unat (taps (timecodes ! 7) OR 1)) = 1298074214633708060055262560518145"
  "unat (length_tc (timecodes ! 7)) = 4950000"
  by (simp_all add: timecodes_def UINT128_def)

lemma entry_mixvibes_v2:
  "bits (timecodes ! 8) = 20"
  "unat (seed (timecodes ! 8)) = 142480"
  "take_bit 20 (unat (taps (timecodes ! 8) OR 1)) = 9"
  "unat (length_tc (timecodes ! 8)) = 950000"
  by (simp_all add: timecodes_def UINT128_def)

lemma entry_mixvibes_7inch:
  "bits (timecodes ! 9) = 20"
  "unat (seed (timecodes ! 9)) = 142480"
  "take_bit 20 (unat (taps (timecodes ! 9) OR 1)) = 9"
  "unat (length_tc (timecodes ! 9)) = 312000"
  by (simp_all add: timecodes_def UINT128_def)

lemma entry_pioneer_a:
  "bits (timecodes ! 10) = 20"
  "unat (seed (timecodes ! 10)) = 492400"
  "take_bit 20 (unat (taps (timecodes ! 10) OR 1)) = 496443"
  "unat (length_tc (timecodes ! 10)) = 635000"
  by (simp_all add: timecodes_def UINT128_def)

lemma entry_pioneer_b:
  "bits (timecodes ! 11) = 20"
  "unat (seed (timecodes ! 11)) = 1011730"
  "take_bit 20 (unat (taps (timecodes ! 11) OR 1)) = 192285"
  "unat (length_tc (timecodes ! 11)) = 918500"
  by (simp_all add: timecodes_def UINT128_def)

lemma catalog_index:
  assumes "d \<in> set timecodes"
  obtains i where "i < 12" "d = timecodes ! i"
proof -
  have "length timecodes = 12" by (simp add: timecodes_def)
  then show ?thesis using assms that by (auto simp: in_set_conv_nth)
qed

lemma catalog_no_wrap:
  assumes "d \<in> set timecodes" "0 < n" "n < unat (length_tc d)"
  shows "(fwdn (take_bit (bits d) (unat (taps d OR 1))) (2 ^ (bits d - 1)) ^^ n) (unat (seed d))
    \<noteq> unat (seed d)"
proof -
  from assms(1) obtain ix where i: "ix < 12" "d = timecodes ! ix" by (rule catalog_index)
  from i(1) consider "ix = 0" | "ix = 1" | "ix = 2" | "ix = 3" | "ix = 4" | "ix = 5" | "ix = 6" | "ix = 7" | "ix = 8" | "ix = 9" | "ix = 10" | "ix = 11"
    by atomize_elim presburger
  then show ?thesis
  proof cases
    case 1
    with i(2) have d: "d = timecodes ! 0" by (simp only:)
    show ?thesis
      using no_wrap_serato_2a [OF assms(2)] assms(3) unfolding d entry_serato_2a by simp
  next
    case 2
    with i(2) have d: "d = timecodes ! 1" by (simp only:)
    show ?thesis
      using no_wrap_serato_2b [OF assms(2)] assms(3) unfolding d entry_serato_2b by simp
  next
    case 3
    with i(2) have d: "d = timecodes ! 2" by (simp only:)
    show ?thesis
      using no_wrap_serato_cd [OF assms(2)] assms(3) unfolding d entry_serato_cd by simp
  next
    case 4
    with i(2) have d: "d = timecodes ! 3" by (simp only:)
    show ?thesis
      using no_wrap_traktor_a [OF assms(2)] assms(3) unfolding d entry_traktor_a by simp
  next
    case 5
    with i(2) have d: "d = timecodes ! 4" by (simp only:)
    show ?thesis
      using no_wrap_traktor_b [OF assms(2)] assms(3) unfolding d entry_traktor_b by simp
  next
    case 6
    with i(2) have d: "d = timecodes ! 5" by (simp only:)
    show ?thesis
      using no_wrap_traktor_mk2_a [OF assms(2)] assms(3) unfolding d entry_traktor_mk2_a by simp
  next
    case 7
    with i(2) have d: "d = timecodes ! 6" by (simp only:)
    show ?thesis
      using no_wrap_traktor_mk2_b [OF assms(2)] assms(3) unfolding d entry_traktor_mk2_b by simp
  next
    case 8
    with i(2) have d: "d = timecodes ! 7" by (simp only:)
    show ?thesis
      using no_wrap_traktor_mk2_cd [OF assms(2)] assms(3) unfolding d entry_traktor_mk2_cd by simp
  next
    case 9
    with i(2) have d: "d = timecodes ! 8" by (simp only:)
    show ?thesis
      using no_wrap_mixvibes [OF assms(2)] assms(3) unfolding d entry_mixvibes_v2 by simp
  next
    case 10
    with i(2) have d: "d = timecodes ! 9" by (simp only:)
    show ?thesis
      using no_wrap_mixvibes [OF assms(2)] assms(3) unfolding d entry_mixvibes_7inch by simp
  next
    case 11
    with i(2) have d: "d = timecodes ! 10" by (simp only:)
    show ?thesis
      using no_wrap_pioneer_a [OF assms(2)] assms(3) unfolding d entry_pioneer_a by simp
  next
    case 12
    with i(2) have d: "d = timecodes ! 11" by (simp only:)
    show ?thesis
      using no_wrap_pioneer_b [OF assms(2)] assms(3) unfolding d entry_pioneer_b by simp
  qed
qed

section \<open>Building the lookup table of a catalog entry\<close>

text \<open>
  Claim C6. For every format of the catalog, with \<open>x\<^sub>0 = seed\<close>, \<open>x\<^sub>i\<^sub>+\<^sub>1 = fwd x\<^sub>i\<close> and \<open>L\<close>
  the format's length: the values \<open>x\<^sub>i\<close> for \<open>i < L\<close> are pairwise distinct; at every step of
  \<^verbatim>\<open>build_lookup\<close> the state is not yet in the table and the reverse step gives the
  state back, so that no assertion fails and the loop returns the table of \<open>x\<^sub>0, \<dots>,
  x\<^sub>L\<^sub>-\<^sub>1\<close>; \<^verbatim>\<open>build_lookup\<close> marks the entry as built with that table; and the table
  maps \<open>x\<^sub>i\<close> to the position \<open>i\<close> for every \<open>i < L\<close>.
\<close>

theorem build_lookup_no_wrap:
  assumes "d \<in> set timecodes"
  shows "let L = unat (length_tc d); x = (\<lambda>i. ((\<lambda>c. fwd c d) ^^ i) (seed d)) in
      (\<forall>i j. i < j \<and> j < L \<longrightarrow> x i \<noteq> x j)
    \<and> (\<forall>i. i < L \<longrightarrow> rev_tc (x (Suc i)) d = x i)
    \<and> (\<forall>i. i < L \<longrightarrow> lut_lookup (map x [0..<i]) (x i) = None)
    \<and> build_loop d 0 (seed d) lut_init = Inr (map x [0..<L])
    \<and> (\<forall>st. \<not> lookup st \<longrightarrow>
          build_lookup True d st = Inr \<lparr> lookup = True, lut_of = map x [0..<L] \<rparr>)
    \<and> (\<forall>i. i < L \<longrightarrow> lut_lookup (map x [0..<L]) (x i) = Some i)"
proof -
  define L where "L = unat (length_tc d)"
  define x where "x = (\<lambda>i. ((\<lambda>c. fwd c d) ^^ i) (seed d))"
  note w = catalog_widths [OF assms]
  have b: "0 < bits d" "bits d < 128" "seed d < 2 ^ bits d" using w by simp_all
  have dist: "x i \<noteq> x j" if "i < j" "j < L" for i j
    unfolding x_def
    using b _ that
  proof (rule register_sequence_distinct)
    fix n assume "0 < n" "n < L"
    then show "(fwdn (take_bit (bits d) (unat (taps d OR 1))) (2 ^ (bits d - 1)) ^^ n)
        (unat (seed d)) \<noteq> unat (seed d)"
      unfolding L_def by (rule catalog_no_wrap [OF assms])
  qed
  have sym: "rev_tc (x (Suc i)) d = x i" for i
    unfolding x_def using rev_fwd [OF b(1,2) funpow_fwd_bound [OF b, of i]] by simp
  have inj: "x i = x j \<Longrightarrow> i < L \<Longrightarrow> j < L \<Longrightarrow> i = j" for i j
    using dist [of i j] dist [of j i] by (cases i j rule: linorder_cases) auto
  have absent: "lut_lookup (map x [0..<i]) (x i) = None" if "i < L" for i
  proof -
    have "x i \<notin> set (map x [0..<i])"
    proof
      assume "x i \<in> set (map x [0..<i])"
      then obtain k where "k < i" "x k = x i" by auto
      then show False using dist [of k i] that by simp
    qed
    then show ?thesis by (simp add: lut_lookup_def lut_index_absent)
  qed
  have run: "build_loop d 0 (seed d) lut_init = Inr (map x [0..<L])"
    using build_loop_run [OF b, of 0] dist
    by (simp add: x_def L_def lut_init_def)
  have built: "build_lookup True d st = Inr \<lparr> lookup = True, lut_of = map x [0..<L] \<rparr>"
    if "\<not> lookup st" for st
    using that by (simp add: build_lookup_def run)
  have d: "distinct (map x [0..<L])"
    by (auto simp: distinct_map inj_on_def dest: inj)
  have found: "lut_lookup (map x [0..<L]) (x i) = Some i" if "i < L" for i
    using lut_index_nth [OF d, of i 0] that by (simp add: lut_lookup_def)
  show ?thesis
    unfolding Let_def L_def [symmetric] x_def [symmetric]
    using dist sym absent run built found by blast
qed

theorem build_lookup_no_wrap_witness:
  "timecodes ! 0 \<in> set timecodes
   \<and> unat (length_tc (timecodes ! 0)) = 712000
   \<and> seed (timecodes ! 0) \<noteq> fwd (seed (timecodes ! 0)) (timecodes ! 0)
   \<and> rev_tc (fwd (seed (timecodes ! 0)) (timecodes ! 0)) (timecodes ! 0) = seed (timecodes ! 0)
   \<and> lut_lookup [seed (timecodes ! 0)] (fwd (seed (timecodes ! 0)) (timecodes ! 0)) = None
   \<and> \<not> lookup \<lparr> lookup = False, lut_of = [] \<rparr>
   \<and> build_lookup True (timecodes ! 0) \<lparr> lookup = False, lut_of = [] \<rparr>
       = Inr \<lparr> lookup = True,
               lut_of = map (\<lambda>i. ((\<lambda>c. fwd c (timecodes ! 0)) ^^ i) (seed (timecodes ! 0)))
                          [0..<unat (length_tc (timecodes ! 0))] \<rparr>
   \<and> lut_lookup (map (\<lambda>i. ((\<lambda>c. fwd c (timecodes ! 0)) ^^ i) (seed (timecodes ! 0)))
                     [0..<unat (length_tc (timecodes ! 0))])
         (fwd (seed (timecodes ! 0)) (timecodes ! 0)) = Some 1"
proof -
  let ?d = "timecodes ! 0"
  let ?x = "\<lambda>i. ((\<lambda>c. fwd c ?d) ^^ i) (seed ?d)"
  have m: "?d \<in> set timecodes" by (simp add: timecodes_def)
  have L: "unat (length_tc ?d) = 712000" by (simp add: timecodes_def)
  have lt: "Suc 0 < unat (length_tc ?d)" by (simp add: L)
  note t = build_lookup_no_wrap [OF m, unfolded Let_def]
  have a: "seed ?d \<noteq> fwd (seed ?d) ?d"
    using t [THEN conjunct1, rule_format, of 0 "Suc 0"] by (simp add: L)
  have s: "rev_tc (fwd (seed ?d) ?d) ?d = seed ?d"
    using t [THEN conjunct2, THEN conjunct1, rule_format, of 0] by (simp add: L)
  have n: "lut_lookup [seed ?d] (fwd (seed ?d) ?d) = None"
    using t [THEN conjunct2, THEN conjunct2, THEN conjunct1, rule_format, of "Suc 0"]
    by (simp add: L)
  have nl: "\<not> lookup \<lparr> lookup = False, lut_of = [] \<rparr>" by simp
  have b: "build_lookup True ?d \<lparr> lookup = False, lut_of = [] \<rparr>
      = Inr \<lparr> lookup = True, lut_of = map ?x [0..<unat (length_tc ?d)] \<rparr>"
    by (rule t [THEN conjunct2, THEN conjunct2, THEN conjunct2, THEN conjunct2, THEN conjunct1,
        rule_format, OF nl])
  have f: "lut_lookup (map ?x [0..<unat (length_tc ?d)]) (fwd (seed ?d) ?d) = Some 1"
    using t [THEN conjunct2, THEN conjunct2, THEN conjunct2, THEN conjunct2, THEN conjunct2,
        rule_format, OF lt]
    by simp
  show ?thesis
    by (intro conjI m L a s n nl b f)
qed

end
